theory Spec2Isabelle
  imports Main "HOL-Library.Word"
begin

unbundle bit_operations_syntax

section \<open>The cip backend of htslib-plugins (hfile\_cip.c)\<close>

text \<open>
  \<^verbatim>\<open>hfile_cip.c\<close> is a filter over an underlying \<^verbatim>\<open>hFILE\<close> stream: it keeps a 16-byte
  initialisation vector at the start of the underlying stream and passes everything else
  through AES-128 in counter mode, keyed by PBKDF2 of the passphrase in \<^verbatim>\<open>HTS_CIP_KEY\<close>.

  The functions of the file are embedded one by one. Everything the file calls but does
  not define (the \<^verbatim>\<open>hFILE\<close> layer of htslib, the C library, the cryptography library) is
  a field of the record \<open>env\<close>; the embedded functions call it through small wrappers
  that record the call in a trace and set \<^verbatim>\<open>errno\<close> as the callee does.
\<close>

subsection \<open>Constants\<close>

type_synonym byte = "8 word"

text \<open>The values of \<^verbatim>\<open>errno.h\<close> and \<^verbatim>\<open>fcntl.h\<close> on Linux.\<close>

definition EPERM :: int where "EPERM = 1"
definition EIO :: int where "EIO = 5"
definition EBADF :: int where "EBADF = 9"
definition ENOMEM :: int where "ENOMEM = 12"
definition EINVAL :: int where "EINVAL = 22"
definition ENOSPC :: int where "ENOSPC = 28"
definition ESPIPE :: int where "ESPIPE = 29"
definition EDOM :: int where "EDOM = 33"
definition ERANGE :: int where "ERANGE = 34"
definition ENOSYS :: int where "ENOSYS = 38"
definition EOVERFLOW :: int where "EOVERFLOW = 75"

definition O_RDONLY :: int where "O_RDONLY = 0"
definition O_WRONLY :: int where "O_WRONLY = 1"
definition O_RDWR :: int where "O_RDWR = 2"
definition O_ACCMODE :: int where "O_ACCMODE = 3"

text \<open>\<^verbatim>\<open>BLOCKSIZE\<close> is \<^verbatim>\<open>AES_BLOCK_SIZE\<close> or \<^verbatim>\<open>kCCBlockSizeAES128\<close>, 16 in both libraries.\<close>

definition BLOCKSIZE :: nat where "BLOCKSIZE = 16"

text \<open>\<^verbatim>\<open>static const uint8_t salt[] = { 244, 34, 1, 0, 158, 223, 78, 21 }\<close>\<close>

definition salt :: "byte list" where
  "salt = [244, 34, 1, 0, 158, 223, 78, 21]"

subsection \<open>The cryptography library and its error codes\<close>

text \<open>
  The file builds against OpenSSL or against CommonCrypto. The model carries the choice
  as a value. A library call answers with a status; under OpenSSL only success
  (\<open>kCCSuccess\<close>) against failure (any other status) is looked at.
\<close>

datatype crypto_lib = OpenSSL | CommonCrypto

datatype CCStatus =
    kCCSuccess | kCCParamError | kCCBufferTooSmall | kCCMemoryFailure
  | kCCAlignmentError | kCCDecodeError | kCCUnimplemented | kCCOverflow
  | kCCRNGFailure | kCCUnspecifiedError | kCCCallSequenceError
  | kCCOtherStatus int

text \<open>\<^verbatim>\<open>ssl_errno\<close>: the message goes to stderr, the result is always \<^verbatim>\<open>EINVAL\<close>.\<close>

definition ssl_errno :: int where
  "ssl_errno = EINVAL"

fun cc_errno :: "CCStatus \<Rightarrow> int" where
  "cc_errno kCCSuccess = 0"
| "cc_errno kCCParamError = EINVAL"
| "cc_errno kCCBufferTooSmall = ENOSPC"
| "cc_errno kCCMemoryFailure = ENOMEM"
| "cc_errno kCCAlignmentError = ERANGE"
| "cc_errno kCCDecodeError = ERANGE"
| "cc_errno kCCUnimplemented = ENOSYS"
| "cc_errno kCCOverflow = EOVERFLOW"
| "cc_errno kCCRNGFailure = ERANGE"
| "cc_errno kCCUnspecifiedError = ERANGE"
| "cc_errno kCCCallSequenceError = EBADF"
| "cc_errno (kCCOtherStatus n) = EINVAL"

definition crypto_errno :: "crypto_lib \<Rightarrow> CCStatus \<Rightarrow> int" where
  "crypto_errno lib st = (case lib of OpenSSL \<Rightarrow> ssl_errno | CommonCrypto \<Rightarrow> cc_errno st)"

subsection \<open>The world outside the file\<close>

text \<open>
  Every call that leaves the file is an event. \<open>Hwrite\<close> carries the bytes handed to
  the underlying stream, \<open>Hread\<close> the number of bytes asked for, \<open>CipherUpdate\<close> the
  chunk given to the cipher, \<open>Free\<close> whether the pointer freed was non-null.
\<close>

datatype event =
    Getenv string
  | HfileInit string
  | Hopen string string
  | Malloc nat
  | Hread nat
  | Hwrite "byte list"
  | Hclose
  | HcloseAbruptly
  | Free bool
  | HfileDestroy
  | GenRandom nat
  | KeyDerivation string "byte list" nat nat
  | CipherInit "byte list" "byte list" bool
  | CipherUpdate "byte list"
  | CipherFinal
  | CipherRelease

record world =
  errno :: int
  trace :: "event list"

definition log :: "event \<Rightarrow> world \<Rightarrow> world" where
  "log e w = w\<lparr>trace := trace w @ [e]\<rparr>"

text \<open>
  The callees. \<open>'r\<close> is the state of an underlying stream, \<open>'c\<close> the state of a cipher
  context. A failing stream call answers \<open>Inl e\<close>, \<open>e\<close> being the \<^verbatim>\<open>errno\<close> it leaves;
  \<open>hwrite_op\<close> answers the number of bytes it accepted.
\<close>

record ('r, 'c) env =
  crypto_lib :: crypto_lib
  getenv_op :: "string \<Rightarrow> string option"
  hfile_init_op :: "string \<Rightarrow> int option"
  hopen_op :: "string \<Rightarrow> string \<Rightarrow> int + 'r"
  hfile_oflags_op :: "string \<Rightarrow> int"
  malloc_op :: "nat \<Rightarrow> byte list"
  hread_op :: "'r \<Rightarrow> nat \<Rightarrow> 'r \<times> (int + byte list)"
  hwrite_op :: "'r \<Rightarrow> byte list \<Rightarrow> 'r \<times> (int + nat)"
  hclose_op :: "'r \<Rightarrow> 'r \<times> int option"
  hclose_abruptly_op :: "'r \<Rightarrow> int option"
  rand_bytes_op :: "nat \<Rightarrow> CCStatus \<times> (nat \<Rightarrow> byte)"
  pbkdf2_op :: "string \<Rightarrow> byte list \<Rightarrow> nat \<Rightarrow> nat \<Rightarrow> CCStatus \<times> byte list"
  cipher_init_op :: "byte list \<Rightarrow> byte list \<Rightarrow> bool \<Rightarrow> CCStatus \<times> 'c"
  cipher_update_op :: "'c \<Rightarrow> byte list \<Rightarrow> 'c \<times> CCStatus \<times> byte list"
  cipher_final_op :: "'c \<Rightarrow> nat \<Rightarrow> 'c \<times> CCStatus \<times> byte list"
  cipher_release_op :: "'c \<Rightarrow> CCStatus"

text \<open>
  The wrappers. A result \<open>None\<close> is the C result \<^verbatim>\<open>NULL\<close> or a negative number. A call
  that succeeds leaves \<^verbatim>\<open>errno\<close> as it was. \<^verbatim>\<open>hread\<close> stores at most the number of
  bytes asked for.
\<close>

definition getenv :: "('r, 'c) env \<Rightarrow> world \<Rightarrow> string \<Rightarrow> world \<times> string option" where
  "getenv env w name = (log (Getenv name) w, getenv_op env name)"

definition hfile_init :: "('r, 'c) env \<Rightarrow> world \<Rightarrow> string \<Rightarrow> world \<times> bool" where
  "hfile_init env w mode =
     (case hfile_init_op env mode of
        Some e \<Rightarrow> (log (HfileInit mode) (w\<lparr>errno := e\<rparr>), False)
      | None \<Rightarrow> (log (HfileInit mode) w, True))"

definition hopen :: "('r, 'c) env \<Rightarrow> world \<Rightarrow> string \<Rightarrow> string \<Rightarrow> world \<times> 'r option" where
  "hopen env w filename mode =
     (case hopen_op env filename mode of
        Inl e \<Rightarrow> (log (Hopen filename mode) (w\<lparr>errno := e\<rparr>), None)
      | Inr r \<Rightarrow> (log (Hopen filename mode) w, Some r))"

definition malloc :: "('r, 'c) env \<Rightarrow> world \<Rightarrow> nat \<Rightarrow> world \<times> byte list" where
  "malloc env w sz = (log (Malloc sz) w, malloc_op env sz)"

definition hread ::
  "('r, 'c) env \<Rightarrow> world \<Rightarrow> 'r \<Rightarrow> nat \<Rightarrow> world \<times> 'r \<times> byte list option" where
  "hread env w r nbytes =
     (case hread_op env r nbytes of
        (r', Inl e) \<Rightarrow> (log (Hread nbytes) (w\<lparr>errno := e\<rparr>), r', None)
      | (r', Inr bs) \<Rightarrow> (log (Hread nbytes) w, r', Some (take nbytes bs)))"

definition hwrite ::
  "('r, 'c) env \<Rightarrow> world \<Rightarrow> 'r \<Rightarrow> byte list \<Rightarrow> world \<times> 'r \<times> nat option" where
  "hwrite env w r bs =
     (case hwrite_op env r bs of
        (r', Inl e) \<Rightarrow> (log (Hwrite bs) (w\<lparr>errno := e\<rparr>), r', None)
      | (r', Inr k) \<Rightarrow> (log (Hwrite bs) w, r', Some k))"

definition hclose :: "('r, 'c) env \<Rightarrow> world \<Rightarrow> 'r \<Rightarrow> world \<times> 'r \<times> bool" where
  "hclose env w r =
     (case hclose_op env r of
        (r', Some e) \<Rightarrow> (log Hclose (w\<lparr>errno := e\<rparr>), r', False)
      | (r', None) \<Rightarrow> (log Hclose w, r', True))"

text \<open>\<^verbatim>\<open>hclose_abruptly\<close> returns nothing; it may leave an \<^verbatim>\<open>errno\<close> of its own.\<close>

definition hclose_abruptly :: "('r, 'c) env \<Rightarrow> world \<Rightarrow> 'r \<Rightarrow> world" where
  "hclose_abruptly env w r =
     (case hclose_abruptly_op env r of
        Some e \<Rightarrow> log HcloseAbruptly (w\<lparr>errno := e\<rparr>)
      | None \<Rightarrow> log HcloseAbruptly w)"

subsection \<open>The handle\<close>

text \<open>
  \<^verbatim>\<open>hFILE_cip\<close>. The \<^verbatim>\<open>base\<close> member belongs to htslib and is left out. \<open>buffer\<close> is
  the content of the scratch buffer; storing a chunk overwrites its first bytes.
\<close>

record ('r, 'c) hFILE_cip =
  is_write :: bool
  buffer :: "byte list"
  bufsize :: nat
  rawfp :: 'r
  ctx :: 'c

definition store :: "byte list \<Rightarrow> byte list \<Rightarrow> byte list" where
  "store bs buf = bs @ drop (length bs) buf"

subsection \<open>gen\_random, cipher\_update, cipher\_final\<close>

definition gen_random :: "('r, 'c) env \<Rightarrow> world \<Rightarrow> nat \<Rightarrow> world \<times> byte list option" where
  "gen_random env w len =
     (case rand_bytes_op env len of (st, f) \<Rightarrow>
        if st \<noteq> kCCSuccess
        then (log (GenRandom len) (w\<lparr>errno := crypto_errno (crypto_lib env) st\<rparr>), None)
        else (log (GenRandom len) w, Some (map f [0..<len])))"

definition cipher_update ::
  "('r, 'c) env \<Rightarrow> world \<Rightarrow> 'c \<Rightarrow> byte list \<Rightarrow> world \<times> 'c \<times> byte list option" where
  "cipher_update env w c inp =
     (case cipher_update_op env c inp of (c', st, out) \<Rightarrow>
        if st \<noteq> kCCSuccess
        then (log (CipherUpdate inp) (w\<lparr>errno := crypto_errno (crypto_lib env) st\<rparr>), c', None)
        else (log (CipherUpdate inp) w, c', Some out))"

definition cipher_final ::
  "('r, 'c) env \<Rightarrow> world \<Rightarrow> 'c \<Rightarrow> nat \<Rightarrow> world \<times> 'c \<times> byte list option" where
  "cipher_final env w c len =
     (case cipher_final_op env c len of (c', st, out) \<Rightarrow>
        if st \<noteq> kCCSuccess
        then (log CipherFinal (w\<lparr>errno := crypto_errno (crypto_lib env) st\<rparr>), c', None)
        else (log CipherFinal w, c', Some out))"

subsection \<open>cip\_read\<close>

text \<open>
  \<open>nbytes\<close> is a \<^verbatim>\<open>size_t\<close>: \<^verbatim>\<open>nbytes -= nout\<close> wraps modulo \<open>2 ^ 64\<close>. \<open>tot\<close> (the C
  variable \<^verbatim>\<open>total\<close>) holds the bytes stored in the caller's buffer so far; the C
  result is their number. The loop
  need not end (a cipher that gives no output on a stream that never ends), so it is a
  partial function: \<open>None\<close> is a call that does not return, \<open>Some (w, fp, None)\<close> one
  that returns \<open>-1\<close>.
\<close>

definition size_sub :: "nat \<Rightarrow> nat \<Rightarrow> nat" where
  "size_sub a b = nat ((int a - int b) mod 2 ^ 64)"

partial_function (option) cip_read_loop ::
  "('r, 'c) env \<Rightarrow> world \<Rightarrow> ('r, 'c) hFILE_cip \<Rightarrow> nat \<Rightarrow> byte list \<Rightarrow>
     (world \<times> ('r, 'c) hFILE_cip \<times> byte list option) option" where
  "cip_read_loop env w fp nbytes tot =
     (if nbytes > 0 then
        (let n = (if nbytes < bufsize fp then nbytes else bufsize fp) in
         case hread env w (rawfp fp) n of
           (w1, r1, None) \<Rightarrow> Some (w1, fp\<lparr>rawfp := r1\<rparr>, None)
         | (w1, r1, Some raw) \<Rightarrow>
             if length raw = 0 then Some (w1, fp\<lparr>rawfp := r1\<rparr>, Some tot)
             else
               (case cipher_update env w1 (ctx fp) raw of
                  (w2, c2, None) \<Rightarrow>
                    Some (w2, fp\<lparr>rawfp := r1, buffer := store raw (buffer fp), ctx := c2\<rparr>, None)
                | (w2, c2, Some out) \<Rightarrow>
                    cip_read_loop env w2
                      (fp\<lparr>rawfp := r1, buffer := store raw (buffer fp), ctx := c2\<rparr>)
                      (size_sub nbytes (length out)) (tot @ out)))
      else Some (w, fp, Some tot))"

definition cip_read ::
  "('r, 'c) env \<Rightarrow> world \<Rightarrow> ('r, 'c) hFILE_cip \<Rightarrow> nat \<Rightarrow>
     (world \<times> ('r, 'c) hFILE_cip \<times> byte list option) option" where
  "cip_read env w fp nbytes = cip_read_loop env w fp nbytes []"

subsection \<open>cip\_write\<close>

text \<open>
  \<open>data\<close> is what is left of the caller's buffer (\<^verbatim>\<open>nbytes\<close> is its length), \<open>tot\<close>
  the number of bytes consumed so far. With \<open>bufsize fp = 0\<close> the C loop spins.
\<close>

partial_function (option) cip_write_loop ::
  "('r, 'c) env \<Rightarrow> world \<Rightarrow> ('r, 'c) hFILE_cip \<Rightarrow> byte list \<Rightarrow> nat \<Rightarrow>
     (world \<times> ('r, 'c) hFILE_cip \<times> nat option) option" where
  "cip_write_loop env w fp data tot =
     (if length data > 0 then
        (let n = (if length data < bufsize fp then length data else bufsize fp) in
         case cipher_update env w (ctx fp) (take n data) of
           (w1, c1, None) \<Rightarrow> Some (w1, fp\<lparr>ctx := c1\<rparr>, None)
         | (w1, c1, Some out) \<Rightarrow>
             (case hwrite env w1 (rawfp fp) out of (w2, r2, res) \<Rightarrow>
                if res \<noteq> Some (length out)
                then Some (w2, fp\<lparr>ctx := c1, buffer := store out (buffer fp), rawfp := r2\<rparr>, None)
                else cip_write_loop env w2
                       (fp\<lparr>ctx := c1, buffer := store out (buffer fp), rawfp := r2\<rparr>)
                       (drop n data) (tot + n)))
      else Some (w, fp, Some tot))"

definition cip_write ::
  "('r, 'c) env \<Rightarrow> world \<Rightarrow> ('r, 'c) hFILE_cip \<Rightarrow> byte list \<Rightarrow>
     (world \<times> ('r, 'c) hFILE_cip \<times> nat option) option" where
  "cip_write env w fp data = cip_write_loop env w fp data 0"

subsection \<open>cip\_seek\<close>

definition cip_seek ::
  "world \<Rightarrow> ('r, 'c) hFILE_cip \<Rightarrow> int \<Rightarrow> int \<Rightarrow> world \<times> ('r, 'c) hFILE_cip \<times> int" where
  "cip_seek w fp offset whence = (w\<lparr>errno := ESPIPE\<rparr>, fp, -1)"

subsection \<open>cip\_close\<close>

text \<open>
  The three stages of \<^verbatim>\<open>cip_close\<close>, each taking the value of \<^verbatim>\<open>err\<close> so far and
  giving the new one. The release of the context sets \<^verbatim>\<open>err\<close> without touching
  \<^verbatim>\<open>errno\<close>.
\<close>

definition cip_close_final ::
  "('r, 'c) env \<Rightarrow> world \<Rightarrow> ('r, 'c) hFILE_cip \<Rightarrow> int \<Rightarrow> world \<times> ('r, 'c) hFILE_cip \<times> int" where
  "cip_close_final env w fp err =
     (if is_write fp then
        (case cipher_final env w (ctx fp) (bufsize fp) of
           (w1, c1, None) \<Rightarrow> (w1, fp\<lparr>ctx := c1\<rparr>, errno w1)
         | (w1, c1, Some out) \<Rightarrow>
             if length out > 0 then
               (case hwrite env w1 (rawfp fp) out of (w2, r2, res) \<Rightarrow>
                  (w2, fp\<lparr>ctx := c1, buffer := store out (buffer fp), rawfp := r2\<rparr>,
                   if res \<noteq> Some (length out) then errno w2 else err))
             else (w1, fp\<lparr>ctx := c1\<rparr>, err))
      else (w, fp, err))"

definition cip_close_release :: "('r, 'c) env \<Rightarrow> world \<Rightarrow> 'c \<Rightarrow> int \<Rightarrow> world \<times> int" where
  "cip_close_release env w c err =
     (let ret = cipher_release_op env c in
      (log CipherRelease w, if ret \<noteq> kCCSuccess then crypto_errno (crypto_lib env) ret else err))"

definition cip_close ::
  "('r, 'c) env \<Rightarrow> world \<Rightarrow> ('r, 'c) hFILE_cip \<Rightarrow> world \<times> ('r, 'c) hFILE_cip \<times> int" where
  "cip_close env w fp =
     (case cip_close_final env w fp 0 of (w1, fp1, err1) \<Rightarrow>
      case cip_close_release env w1 (ctx fp1) err1 of (w2, err2) \<Rightarrow>
      case hclose env w2 (rawfp fp1) of (w3, r3, ok) \<Rightarrow>
        (let err3 = (if \<not> ok then errno w3 else err2) in
         if err3 \<noteq> 0 then (w3\<lparr>errno := err3\<rparr>, fp1\<lparr>rawfp := r3\<rparr>, -1)
         else (w3, fp1\<lparr>rawfp := r3\<rparr>, 0)))"

subsection \<open>strip\_cip\_scheme\<close>

text \<open>
  \<^verbatim>\<open>strncmp(filename, lit, n) == 0\<close> for a literal of at least \<open>n\<close> characters: the
  first \<open>n\<close> characters agree.
\<close>

definition strncmp_eq :: "string \<Rightarrow> string \<Rightarrow> nat \<Rightarrow> bool" where
  "strncmp_eq s lit n = (take n s = take n lit)"

definition strip_cip_scheme :: "string \<Rightarrow> string" where
  "strip_cip_scheme filename =
     (if strncmp_eq filename ''cip://localhost/'' 16 then drop 15 filename
      else if strncmp_eq filename ''cip:///'' 7 then drop 6 filename
      else if strncmp_eq filename ''cip:'' 4 then drop 4 filename
      else filename)"

subsection \<open>hopen\_cip\<close>

text \<open>
  What \<^verbatim>\<open>fp\<close> holds while it is being built: \<open>None\<close> is a null pointer.
\<close>

record 'r cip_partial =
  p_rawfp :: "'r option"
  p_buffer :: "byte list option"

text \<open>The label \<^verbatim>\<open>error:\<close>.\<close>

definition hopen_cip_error ::
  "('r, 'c) env \<Rightarrow> world \<Rightarrow> 'r cip_partial option \<Rightarrow> world" where
  "hopen_cip_error env w fp =
     (let save = errno w;
          w3 = (case fp of
                  None \<Rightarrow> w
                | Some p \<Rightarrow>
                    (let w1 = (case p_rawfp p of
                                 Some r \<Rightarrow> hclose_abruptly env w r
                               | None \<Rightarrow> w);
                         w2 = log (Free (p_buffer p \<noteq> None)) w1
                     in log HfileDestroy w2))
      in w3\<lparr>errno := save\<rparr>)"

text \<open>
  From the declaration of \<^verbatim>\<open>salt\<close> to the successful return: key derivation and the
  start of the cipher. \<open>enc\<close> is \<^verbatim>\<open>accmode == O_WRONLY\<close>.
\<close>

definition hopen_cip_cipher ::
  "('r, 'c) env \<Rightarrow> world \<Rightarrow> string \<Rightarrow> 'r \<Rightarrow> byte list \<Rightarrow> nat \<Rightarrow> byte list \<Rightarrow> bool \<Rightarrow>
     world \<times> ('r, 'c) hFILE_cip option" where
  "hopen_cip_cipher env w key r buf bsize iv enc =
     (case pbkdf2_op env key salt 1024 16 of (st, secret) \<Rightarrow>
        let w1 = log (KeyDerivation key salt 1024 16) w in
        if st \<noteq> kCCSuccess
        then (hopen_cip_error env (w1\<lparr>errno := crypto_errno (crypto_lib env) st\<rparr>)
                (Some \<lparr>p_rawfp = Some r, p_buffer = Some buf\<rparr>), None)
        else
          (case cipher_init_op env secret iv enc of (st2, c) \<Rightarrow>
             let w2 = log (CipherInit secret iv enc) w1 in
             if st2 \<noteq> kCCSuccess
             then (hopen_cip_error env (w2\<lparr>errno := crypto_errno (crypto_lib env) st2\<rparr>)
                     (Some \<lparr>p_rawfp = Some r, p_buffer = Some buf\<rparr>), None)
             else (w2, Some \<lparr>is_write = enc, buffer = buf, bufsize = bsize,
                              rawfp = r, ctx = c\<rparr>)))"

definition hopen_cip ::
  "('r, 'c) env \<Rightarrow> world \<Rightarrow> string \<Rightarrow> string \<Rightarrow> world \<times> ('r, 'c) hFILE_cip option" where
  "hopen_cip env w filename mode =
     (case getenv env w ''HTS_CIP_KEY'' of
        (w0, None) \<Rightarrow> (hopen_cip_error env (w0\<lparr>errno := EPERM\<rparr>) None, None)
      | (w0, Some key) \<Rightarrow>
     (case hfile_init env w0 mode of
        (w1, False) \<Rightarrow> (hopen_cip_error env w1 None, None)
      | (w1, True) \<Rightarrow>
     (case hopen env w1 (strip_cip_scheme filename) mode of
        (w2, None) \<Rightarrow>
          (hopen_cip_error env w2 (Some \<lparr>p_rawfp = None, p_buffer = None\<rparr>), None)
      | (w2, Some r) \<Rightarrow>
     (let bsize = 8192 * BLOCKSIZE in
      case malloc env w2 bsize of (w3, buf) \<Rightarrow>
      let accmode = hfile_oflags_op env mode AND O_ACCMODE in
      if accmode = O_RDONLY then
        (case hread env w3 r 16 of
           (w4, r4, None) \<Rightarrow>
             (hopen_cip_error env w4 (Some \<lparr>p_rawfp = Some r4, p_buffer = Some buf\<rparr>), None)
         | (w4, r4, Some iv) \<Rightarrow>
             if length iv < 16
             then (hopen_cip_error env (w4\<lparr>errno := EDOM\<rparr>)
                     (Some \<lparr>p_rawfp = Some r4, p_buffer = Some buf\<rparr>), None)
             else hopen_cip_cipher env w4 key r4 buf bsize iv False)
      else if accmode = O_WRONLY then
        (case gen_random env w3 16 of
           (w4, None) \<Rightarrow>
             (hopen_cip_error env w4 (Some \<lparr>p_rawfp = Some r, p_buffer = Some buf\<rparr>), None)
         | (w4, Some iv) \<Rightarrow>
             (case hwrite env w4 r iv of (w5, r5, res) \<Rightarrow>
                if res \<noteq> Some 16
                then (hopen_cip_error env w5
                        (Some \<lparr>p_rawfp = Some r5, p_buffer = Some buf\<rparr>), None)
                else hopen_cip_cipher env w5 key r5 buf bsize iv True))
      else (hopen_cip_error env (w3\<lparr>errno := EINVAL\<rparr>)
              (Some \<lparr>p_rawfp = Some r, p_buffer = Some buf\<rparr>), None)))))"


subsection \<open>Callers\<close>

text \<open>
  What a caller of the backend does in a write session and in a read session. A write
  session opens with mode \<^verbatim>\<open>w\<close>, writes each buffer of \<open>bufs\<close> in turn and closes; the
  result is the state the underlying stream is left in, or \<open>None\<close> when a call failed or
  did not return. A read session opens with mode \<^verbatim>\<open>r\<close> and asks for \<open>n\<close> bytes at a
  time until a read gives none.
\<close>

fun cip_write_all ::
  "('r, 'c) env \<Rightarrow> world \<Rightarrow> ('r, 'c) hFILE_cip \<Rightarrow> byte list list \<Rightarrow>
     (world \<times> ('r, 'c) hFILE_cip) option" where
  "cip_write_all env w fp [] = Some (w, fp)"
| "cip_write_all env w fp (data # bufs) =
     (case cip_write env w fp data of
        None \<Rightarrow> None
      | Some (w1, fp1, res) \<Rightarrow>
          if res = Some (length data) then cip_write_all env w1 fp1 bufs else None)"

definition write_session ::
  "('r, 'c) env \<Rightarrow> world \<Rightarrow> string \<Rightarrow> byte list list \<Rightarrow> (world \<times> 'r) option" where
  "write_session env w filename bufs =
     (case hopen_cip env w filename ''w'' of
        (w1, None) \<Rightarrow> None
      | (w1, Some fp1) \<Rightarrow>
          (case cip_write_all env w1 fp1 bufs of
             None \<Rightarrow> None
           | Some (w2, fp2) \<Rightarrow>
               (case cip_close env w2 fp2 of (w3, fp3, rc) \<Rightarrow>
                  if rc = 0 then Some (w3, rawfp fp3) else None)))"

partial_function (option) read_to_eof ::
  "('r, 'c) env \<Rightarrow> world \<Rightarrow> ('r, 'c) hFILE_cip \<Rightarrow> nat \<Rightarrow> byte list \<Rightarrow>
     (world \<times> ('r, 'c) hFILE_cip \<times> byte list option) option" where
  "read_to_eof env w fp n acc =
     (case cip_read env w fp n of
        None \<Rightarrow> None
      | Some (w1, fp1, None) \<Rightarrow> Some (w1, fp1, None)
      | Some (w1, fp1, Some bs) \<Rightarrow>
          if bs = [] then Some (w1, fp1, Some acc)
          else read_to_eof env w1 fp1 n (acc @ bs))"

definition read_session ::
  "('r, 'c) env \<Rightarrow> world \<Rightarrow> string \<Rightarrow> nat \<Rightarrow> byte list option" where
  "read_session env w filename n =
     (case hopen_cip env w filename ''r'' of
        (w1, None) \<Rightarrow> None
      | (w1, Some fp1) \<Rightarrow>
          (case read_to_eof env w1 fp1 n [] of
             Some (w2, fp2, Some bs) \<Rightarrow> Some bs
           | _ \<Rightarrow> None))"

subsection \<open>An environment: a stream in memory and a counter-mode cipher\<close>

text \<open>
  A stand-in for the callees, used to run the functions above: the underlying stream is
  a byte sequence with a read position, and the cipher combines each byte with the byte
  of a keystream at the same position by exclusive or, which is what counter mode does.
  The keystream \<open>ks key iv\<close>, the key derivation \<open>kdf\<close>, the random bytes \<open>rnd\<close>, the
  passphrase \<open>secret\<close> and the bytes \<open>disk\<close> that a stream opened for reading holds are
  parameters.
\<close>

record mem_file =
  content :: "byte list"
  pos :: nat

record ctr_ctx =
  ctr_key :: "byte list"
  ctr_iv :: "byte list"
  ctr_pos :: nat

fun ctr_xor :: "(nat \<Rightarrow> byte) \<Rightarrow> nat \<Rightarrow> byte list \<Rightarrow> byte list" where
  "ctr_xor f p [] = []"
| "ctr_xor f p (b # bs) = (b XOR f p) # ctr_xor f (Suc p) bs"

text \<open>
  The access mode that htslib's \<^verbatim>\<open>hfile_oflags\<close> computes from a mode string: the last
  of \<^verbatim>\<open>r\<close>, \<^verbatim>\<open>w\<close>, \<^verbatim>\<open>a\<close>, \<^verbatim>\<open>+\<close> decides; \<^verbatim>\<open>w\<close> and \<^verbatim>\<open>a\<close> add \<^verbatim>\<open>O_CREAT\<close> with \<^verbatim>\<open>O_TRUNC\<close> or
  \<^verbatim>\<open>O_APPEND\<close>.
\<close>

fun mem_oflags :: "string \<Rightarrow> int \<Rightarrow> int \<Rightarrow> int" where
  "mem_oflags [] rdwr flags = rdwr OR flags"
| "mem_oflags (c # cs) rdwr flags =
     (if c = CHR ''r'' then mem_oflags cs O_RDONLY flags
      else if c = CHR ''w'' then mem_oflags cs O_WRONLY (flags OR 64 OR 512)
      else if c = CHR ''a'' then mem_oflags cs O_WRONLY (flags OR 64 OR 1024)
      else if c = CHR ''+'' then mem_oflags cs O_RDWR flags
      else mem_oflags cs rdwr flags)"

definition mem_env ::
  "(byte list \<Rightarrow> byte list \<Rightarrow> nat \<Rightarrow> byte) \<Rightarrow> (string \<Rightarrow> byte list) \<Rightarrow> (nat \<Rightarrow> byte) \<Rightarrow>
     string option \<Rightarrow> byte list \<Rightarrow> (mem_file, ctr_ctx) env" where
  "mem_env ks kdf rnd secret disk =
     \<lparr> crypto_lib = OpenSSL,
       getenv_op = (\<lambda>name. if name = ''HTS_CIP_KEY'' then secret else None),
       hfile_init_op = (\<lambda>mode. None),
       hopen_op = (\<lambda>filename mode.
          Inr \<lparr>content = (if CHR ''w'' \<in> set mode then [] else disk), pos = 0\<rparr>),
       hfile_oflags_op = (\<lambda>mode. mem_oflags mode 0 0),
       malloc_op = (\<lambda>sz. replicate sz 0),
       hread_op = (\<lambda>r n.
          (r\<lparr>pos := pos r + length (take n (drop (pos r) (content r)))\<rparr>,
           Inr (take n (drop (pos r) (content r))))),
       hwrite_op = (\<lambda>r bs. (r\<lparr>content := content r @ bs\<rparr>, Inr (length bs))),
       hclose_op = (\<lambda>r. (r, None)),
       hclose_abruptly_op = (\<lambda>r. None),
       rand_bytes_op = (\<lambda>len. (kCCSuccess, rnd)),
       pbkdf2_op = (\<lambda>key slt iter len. (kCCSuccess, kdf key)),
       cipher_init_op = (\<lambda>key iv enc.
          (kCCSuccess, \<lparr>ctr_key = key, ctr_iv = iv, ctr_pos = 0\<rparr>)),
       cipher_update_op = (\<lambda>c inp.
          (c\<lparr>ctr_pos := ctr_pos c + length inp\<rparr>, kCCSuccess,
           ctr_xor (ks (ctr_key c) (ctr_iv c)) (ctr_pos c) inp)),
       cipher_final_op = (\<lambda>c len. (c, kCCSuccess, [])),
       cipher_release_op = (\<lambda>c. kCCSuccess) \<rparr>"

subsection \<open>A call seen chunk by chunk\<close>

text \<open>
  The pieces a write of \<open>xs\<close> is cut into when at most \<open>n\<close> bytes go through the
  buffer at a time.
\<close>

function chunks :: "nat \<Rightarrow> 'a list \<Rightarrow> 'a list list" where
  "chunks n xs = (if n = 0 \<or> xs = [] then [] else take n xs # chunks n (drop n xs))"
  by pat_completeness auto
termination
  by (relation "measure (\<lambda>(n, xs). length xs)") auto

declare chunks.simps [simp del]

text \<open>
  What the callees themselves answer when the chunks \<open>chs\<close> are given to the cipher one
  after the other from the context \<open>c\<close> (the context left and the outputs, \<open>None\<close> when
  an update fails), and when the outputs \<open>outs\<close> are written one after the other to the
  stream \<open>r\<close> (the stream left, \<open>None\<close> when a write is not accepted whole). The events
  of such a run are an update and a write for each chunk.
\<close>

fun cipher_outputs ::
  "('r, 'c) env \<Rightarrow> 'c \<Rightarrow> byte list list \<Rightarrow> ('c \<times> byte list list) option" where
  "cipher_outputs env c [] = Some (c, [])"
| "cipher_outputs env c (ch # chs) =
     (case cipher_update_op env c ch of (c1, st, out) \<Rightarrow>
        if st \<noteq> kCCSuccess then None
        else (case cipher_outputs env c1 chs of
                None \<Rightarrow> None
              | Some (c2, outs) \<Rightarrow> Some (c2, out # outs)))"

fun accept_all :: "('r, 'c) env \<Rightarrow> 'r \<Rightarrow> byte list list \<Rightarrow> 'r option" where
  "accept_all env r [] = Some r"
| "accept_all env r (out # outs) =
     (case hwrite_op env r out of (r1, res) \<Rightarrow>
        if res = Inr (length out) then accept_all env r1 outs else None)"

fun chunk_events :: "byte list list \<Rightarrow> byte list list \<Rightarrow> event list" where
  "chunk_events (ch # chs) (out # outs) = CipherUpdate ch # Hwrite out # chunk_events chs outs"
| "chunk_events chs outs = []"

text \<open>
  The write of the specification, chunk by chunk: give the chunk to the cipher, write the
  whole output to the underlying stream, stop with \<open>-1\<close> when the cipher fails or the
  stream accepts another number of bytes, count the bytes of the chunk otherwise. It calls
  the callees directly and keeps \<^verbatim>\<open>errno\<close> and the trace itself.
\<close>

fun spec_write ::
  "('r, 'c) env \<Rightarrow> world \<Rightarrow> ('r, 'c) hFILE_cip \<Rightarrow> byte list list \<Rightarrow> nat \<Rightarrow>
     world \<times> ('r, 'c) hFILE_cip \<times> nat option" where
  "spec_write env w fp [] tot = (w, fp, Some tot)"
| "spec_write env w fp (ch # chs) tot =
     (case cipher_update_op env (ctx fp) ch of (c1, st, out) \<Rightarrow>
        if st \<noteq> kCCSuccess
        then (w\<lparr>errno := crypto_errno (crypto_lib env) st,
                trace := trace w @ [CipherUpdate ch]\<rparr>, fp\<lparr>ctx := c1\<rparr>, None)
        else (case hwrite_op env (rawfp fp) out of (r2, res) \<Rightarrow>
                if res = Inr (length out)
                then spec_write env (w\<lparr>trace := trace w @ [CipherUpdate ch, Hwrite out]\<rparr>)
                       (fp\<lparr>ctx := c1, buffer := store out (buffer fp), rawfp := r2\<rparr>)
                       chs (tot + length ch)
                else (w\<lparr>errno := (case res of Inl e \<Rightarrow> e | Inr k \<Rightarrow> errno w),
                        trace := trace w @ [CipherUpdate ch, Hwrite out]\<rparr>,
                      fp\<lparr>ctx := c1, buffer := store out (buffer fp), rawfp := r2\<rparr>, None)))"

text \<open>
  The first \<open>j\<close> rounds of a read of \<open>nbytes\<close> bytes, when each of them is complete (a
  read of at least one byte, its cipher update succeeding): the world and the handle after
  them, the bytes still asked for and the outputs of the cipher in order. \<open>None\<close> when one
  of these rounds is not complete.
\<close>

fun read_steps ::
  "('r, 'c) env \<Rightarrow> nat \<Rightarrow> world \<Rightarrow> ('r, 'c) hFILE_cip \<Rightarrow> nat \<Rightarrow>
     (world \<times> ('r, 'c) hFILE_cip \<times> nat \<times> byte list list) option" where
  "read_steps env 0 w fp nbytes = Some (w, fp, nbytes, [])"
| "read_steps env (Suc j) w fp nbytes =
     (if nbytes = 0 then None
      else
        (let n = (if nbytes < bufsize fp then nbytes else bufsize fp) in
         case hread_op env (rawfp fp) n of
           (r1, Inl e) \<Rightarrow> None
         | (r1, Inr bs) \<Rightarrow>
             if take n bs = [] then None
             else
               (case cipher_update_op env (ctx fp) (take n bs) of (c2, st, out) \<Rightarrow>
                  if st \<noteq> kCCSuccess then None
                  else
                    (case read_steps env j
                            (w\<lparr>trace := trace w @ [Hread n, CipherUpdate (take n bs)]\<rparr>)
                            (fp\<lparr>rawfp := r1, buffer := store (take n bs) (buffer fp),
                               ctx := c2\<rparr>)
                            (size_sub nbytes (length out)) of
                       None \<Rightarrow> None
                     | Some (w', fp', nb', outs) \<Rightarrow> Some (w', fp', nb', out # outs)))))"


subsection \<open>The stages of a close, as the specification names them\<close>

text \<open>
  The error each stage of a close meets, \<open>None\<close> when the stage succeeds: the final
  block of the cipher and its write (write sessions only), the release of the cipher
  context, the close of the underlying stream. \<open>first_error\<close> is the merge the
  specification describes, \<open>last_error\<close> the one that keeps the latest.
\<close>

definition final_stage_error :: "('r, 'c) env \<Rightarrow> ('r, 'c) hFILE_cip \<Rightarrow> int option" where
  "final_stage_error env fp =
     (if is_write fp then
        (case cipher_final_op env (ctx fp) (bufsize fp) of (c', st, out) \<Rightarrow>
           if st \<noteq> kCCSuccess then Some (crypto_errno (crypto_lib env) st)
           else if out = [] then None
           else (case snd (hwrite_op env (rawfp fp) out) of
                   Inl e \<Rightarrow> Some e
                 | Inr k \<Rightarrow> None))
      else None)"

definition release_stage_error :: "('r, 'c) env \<Rightarrow> 'c \<Rightarrow> int option" where
  "release_stage_error env c =
     (if cipher_release_op env c \<noteq> kCCSuccess
      then Some (crypto_errno (crypto_lib env) (cipher_release_op env c)) else None)"

definition close_stage_error :: "('r, 'c) env \<Rightarrow> 'r \<Rightarrow> int option" where
  "close_stage_error env r = snd (hclose_op env r)"

fun first_error :: "int option list \<Rightarrow> int option" where
  "first_error [] = None"
| "first_error (Some e # es) = Some e"
| "first_error (None # es) = first_error es"

definition last_error :: "int option list \<Rightarrow> int option" where
  "last_error es = first_error (rev es)"


subsection \<open>Reading the trace\<close>

text \<open>The events that create cipher state: the key derivation and the start of the cipher.\<close>

fun is_cipher_setup :: "event \<Rightarrow> bool" where
  "is_cipher_setup (KeyDerivation key slt iter len) = True"
| "is_cipher_setup (CipherInit key iv enc) = True"
| "is_cipher_setup e = False"

text \<open>The bytes handed to the underlying stream, in order.\<close>

fun written :: "event list \<Rightarrow> byte list" where
  "written [] = []"
| "written (Hwrite bs # evs) = bs @ written evs"
| "written (e # evs) = written evs"

text \<open>
  What counter mode gives: the output of an update has the length of its input, and the
  final call has nothing left to give.
\<close>

definition length_preserving :: "('r, 'c) env \<Rightarrow> bool" where
  "length_preserving env \<longleftrightarrow>
     (\<forall>c inp c' out.
        cipher_update_op env c inp = (c', kCCSuccess, out) \<longrightarrow> length out = length inp) \<and>
     (\<forall>c len c' out. cipher_final_op env c len = (c', kCCSuccess, out) \<longrightarrow> out = [])"

text \<open>Parameters to run the environment with, and the world a run starts in.\<close>

definition demo_ks :: "byte list \<Rightarrow> byte list \<Rightarrow> nat \<Rightarrow> byte" where
  "demo_ks key iv i = of_nat (7 * i + length key + length iv)"

definition demo_kdf :: "string \<Rightarrow> byte list" where
  "demo_kdf s = replicate 16 (of_nat (length s))"

definition demo_rnd :: "nat \<Rightarrow> byte" where
  "demo_rnd i = of_nat (17 * i + 1)"

definition w0 :: world where
  "w0 = \<lparr>errno = 0, trace = []\<rparr>"

text \<open>
  A handle with a small buffer, and two environments in which stages of a close fail:
  in the first the cipher has a last byte to give, the underlying stream refuses it with
  \<^verbatim>\<open>ENOSPC\<close> and then fails to close with \<^verbatim>\<open>EIO\<close>; in the second (CommonCrypto) the
  final call of the cipher and the release of its context fail.
\<close>

definition close_fail_env :: "(mem_file, ctr_ctx) env" where
  "close_fail_env =
     (mem_env demo_ks demo_kdf demo_rnd (Some ''secret'') [])
       \<lparr> hwrite_op := (\<lambda>r bs. (r, Inl ENOSPC)),
         hclose_op := (\<lambda>r. (r, Some EIO)),
         cipher_final_op := (\<lambda>c len. (c, kCCSuccess, [170])) \<rparr>"

definition demo_fp :: "bool \<Rightarrow> (mem_file, ctr_ctx) hFILE_cip" where
  "demo_fp wr =
     \<lparr> is_write = wr, buffer = [0, 0, 0, 0], bufsize = 4,
       rawfp = \<lparr>content = [], pos = 0\<rparr>,
       ctx = \<lparr>ctr_key = [], ctr_iv = [], ctr_pos = 0\<rparr> \<rparr>"

definition release_fail_env :: "(mem_file, ctr_ctx) env" where
  "release_fail_env =
     (mem_env demo_ks demo_kdf demo_rnd (Some ''secret'') [])
       \<lparr> crypto_lib := CommonCrypto,
         cipher_final_op := (\<lambda>c len. (c, kCCParamError, [])),
         cipher_release_op := (\<lambda>c. kCCMemoryFailure) \<rparr>"


text \<open>
  A reading handle at position \<open>p\<close> of the bytes \<open>bs\<close>, an environment whose underlying
  stream fails with \<^verbatim>\<open>EIO\<close> on any read from position 4 on, and one whose underlying
  stream accepts a first write whole and one byte of any later write.
\<close>

definition read_fail_env :: "(mem_file, ctr_ctx) env" where
  "read_fail_env =
     (mem_env demo_ks demo_kdf demo_rnd (Some ''secret'') [])
       \<lparr> hread_op := (\<lambda>r n.
            if pos r < 4
            then (r\<lparr>pos := pos r + length (take n (drop (pos r) (content r)))\<rparr>,
                  Inr (take n (drop (pos r) (content r))))
            else (r, Inl EIO)) \<rparr>"

definition short_write_env :: "(mem_file, ctr_ctx) env" where
  "short_write_env =
     (mem_env demo_ks demo_kdf demo_rnd (Some ''secret'') [])
       \<lparr> hwrite_op := (\<lambda>r bs.
            if content r = [] then (r\<lparr>content := bs\<rparr>, Inr (length bs))
            else (r\<lparr>content := content r @ take 1 bs\<rparr>, Inr (min 1 (length bs)))) \<rparr>"

definition demo_rfp :: "byte list \<Rightarrow> nat \<Rightarrow> (mem_file, ctr_ctx) hFILE_cip" where
  "demo_rfp bs p =
     \<lparr> is_write = False, buffer = [0, 0, 0, 0], bufsize = 4,
       rawfp = \<lparr>content = bs, pos = p\<rparr>,
       ctx = \<lparr>ctr_key = [], ctr_iv = [], ctr_pos = p\<rparr> \<rparr>"


section \<open>Properties\<close>

lemmas errno_defs = EPERM_def EIO_def EBADF_def ENOMEM_def EINVAL_def ENOSPC_def
  ESPIPE_def EDOM_def ERANGE_def ENOSYS_def EOVERFLOW_def

lemmas oflag_defs = O_RDONLY_def O_WRONLY_def O_RDWR_def O_ACCMODE_def

subsection \<open>Arithmetic and the demonstration keystream\<close>

lemma size_sub_le: "b \<le> a \<Longrightarrow> a < 2 ^ 64 \<Longrightarrow> size_sub a b = a - b"
proof -
  assume b: "b \<le> a" and a: "a < 2 ^ 64"
  have e: "int a - int b = int (a - b)" using b by simp
  have "a - b < 2 ^ 64" using a b by arith
  then have "int (a - b) < 2 ^ 64" by (metis of_nat_less_iff of_nat_numeral of_nat_power)
  then have "int (a - b) mod 2 ^ 64 = int (a - b)" by (intro mod_pos_pos_trivial) simp_all
  then show ?thesis unfolding size_sub_def e by simp
qed

lemma demo_ks_simp: "demo_ks [] [] i = of_nat (7 * i)"
  by (simp add: demo_ks_def)

subsection \<open>Scheme prefixes\<close>

lemma take_shorter: "take n p = q \<Longrightarrow> m \<le> n \<Longrightarrow> take m p = take m q"
  by (metis min.absorb1 take_take)

text \<open>
  C9, as stated: for every path \<open>p\<close> the targets \<^verbatim>\<open>cip://localhost/p\<close>, \<^verbatim>\<open>cip:///p\<close> and
  \<^verbatim>\<open>cip:p\<close> are stripped to the same inner target. This fails for \<open>p = foo\<close>: the two
  forms with an authority keep the slash that ends the prefix and give \<^verbatim>\<open>/foo\<close>, the bare
  form gives \<^verbatim>\<open>foo\<close>.
\<close>

theorem strip_cip_scheme_forms_counterexample:
  "strip_cip_scheme (''cip://localhost/'' @ ''foo'') = ''/foo'' \<and>
   strip_cip_scheme (''cip:///'' @ ''foo'') = ''/foo'' \<and>
   strip_cip_scheme (''cip:'' @ ''foo'') = ''foo'' \<and>
   strip_cip_scheme (''cip://localhost/'' @ ''foo'') \<noteq> strip_cip_scheme (''cip:'' @ ''foo'')"
  by (simp add: strip_cip_scheme_def strncmp_eq_def)

text \<open>
  C9, amended: for every \<open>p\<close>, \<^verbatim>\<open>cip://localhost/p\<close> and \<^verbatim>\<open>cip:///p\<close> are both stripped to
  \<^verbatim>\<open>/p\<close> (the slash is kept); \<^verbatim>\<open>cip:/p\<close> is stripped to the same \<^verbatim>\<open>/p\<close> provided \<open>p\<close> starts
  neither with \<^verbatim>\<open>//\<close> nor with \<^verbatim>\<open>/localhost/\<close>; and \<^verbatim>\<open>cip:p\<close> is stripped to \<open>p\<close> itself
  provided \<open>p\<close> does not start with \<^verbatim>\<open>//\<close>.
\<close>

theorem strip_cip_scheme_forms:
  "strip_cip_scheme (''cip://localhost/'' @ p) = ''/'' @ p \<and>
   strip_cip_scheme (''cip:///'' @ p) = ''/'' @ p \<and>
   (take 2 p \<noteq> ''//'' \<and> take 11 p \<noteq> ''/localhost/'' \<longrightarrow>
      strip_cip_scheme (''cip:/'' @ p) = ''/'' @ p) \<and>
   (take 2 p \<noteq> ''//'' \<longrightarrow> strip_cip_scheme (''cip:'' @ p) = p)"
proof -
  have a: "take 3 p = ''///'' \<Longrightarrow> take 2 p = ''//''"
    using take_shorter [of 3 p "''///''" 2] by simp
  have b: "take 12 p = ''//localhost/'' \<Longrightarrow> take 2 p = ''//''"
    using take_shorter [of 12 p "''//localhost/''" 2] by simp
  show ?thesis
    using a b by (auto simp add: strip_cip_scheme_def strncmp_eq_def)
qed

theorem strip_cip_scheme_forms_witness:
  "strip_cip_scheme ''cip://localhost/tmp/x.bam'' = ''/tmp/x.bam'' \<and>
   strip_cip_scheme ''cip:///tmp/x.bam'' = ''/tmp/x.bam'' \<and>
   strip_cip_scheme ''cip:/tmp/x.bam'' = ''/tmp/x.bam'' \<and>
   strip_cip_scheme ''cip:tmp/x.bam'' = ''tmp/x.bam''"
  using strip_cip_scheme_forms [of "''tmp/x.bam''"] by simp

subsection \<open>Seeking\<close>

text \<open>
  C6: on every handle, reading or writing, and for every offset and whence, \<open>cip_seek\<close>
  returns \<open>-1\<close> with \<^verbatim>\<open>errno\<close> set to \<^verbatim>\<open>ESPIPE\<close>; the handle (the state of the underlying
  stream with its position, the scratch buffer, the cipher context) is returned as it was
  and no call leaves the file.
\<close>

theorem cip_seek_not_seekable:
  "snd (snd (cip_seek w fp offset whence)) = -1 \<and>
   errno (fst (cip_seek w fp offset whence)) = ESPIPE \<and>
   fst (snd (cip_seek w fp offset whence)) = fp \<and>
   trace (fst (cip_seek w fp offset whence)) = trace w"
  by (simp add: cip_seek_def)

subsection \<open>Opening without a passphrase\<close>

text \<open>
  C4: when \<^verbatim>\<open>HTS_CIP_KEY\<close> is not set, \<open>hopen_cip\<close> returns \<^verbatim>\<open>NULL\<close> with \<^verbatim>\<open>errno\<close> set to
  \<^verbatim>\<open>EPERM\<close>, and the only call it has made is the \<^verbatim>\<open>getenv\<close>: the underlying stream is
  not opened, read or written.
\<close>

theorem hopen_cip_missing_secret:
  assumes "getenv_op env ''HTS_CIP_KEY'' = None"
  shows "hopen_cip env w filename mode =
           (w\<lparr>errno := EPERM, trace := trace w @ [Getenv ''HTS_CIP_KEY'']\<rparr>, None)"
  using assms by (simp add: hopen_cip_def getenv_def log_def hopen_cip_error_def)

theorem hopen_cip_missing_secret_witness:
  "hopen_cip (mem_env demo_ks demo_kdf demo_rnd None [1, 2, 3]) w0 ''cip:reads.bam'' ''r'' =
     (\<lparr>errno = EPERM, trace = [Getenv ''HTS_CIP_KEY'']\<rparr>, None)"
  using hopen_cip_missing_secret
    [of "mem_env demo_ks demo_kdf demo_rnd None [1, 2, 3]" w0 "''cip:reads.bam''" "''r''"]
  by (simp add: mem_env_def w0_def)

subsection \<open>Failures of hopen\_cip after the underlying stream is open\<close>

lemma trace_hopen_cip_error:
  "filter is_cipher_setup (trace (hopen_cip_error env w fp)) = filter is_cipher_setup (trace w)"
  by (simp add: hopen_cip_error_def hclose_abruptly_def log_def Let_def
           split: option.splits)

lemma errno_hopen_cip_error: "errno (hopen_cip_error env w fp) = errno w"
  by (simp add: hopen_cip_error_def Let_def)

lemma hopen_cip_error_Some:
  "hopen_cip_error env w (Some \<lparr>p_rawfp = Some r, p_buffer = Some buf\<rparr>) =
     w\<lparr>trace := trace w @ [HcloseAbruptly, Free True, HfileDestroy]\<rparr>"
  by (simp add: hopen_cip_error_def hclose_abruptly_def log_def Let_def
           split: option.splits)

text \<open>
  C5: a read-mode open (passphrase set, handle allocated, underlying stream opened) whose
  16-byte header read gives fewer than 16 bytes, none included, returns \<^verbatim>\<open>NULL\<close> with
  \<^verbatim>\<open>errno\<close> set to \<^verbatim>\<open>EDOM\<close>. The calls made are exactly those listed: after the short read
  the stream is closed abruptly and the memory released; there is no key derivation and
  no cipher initialisation.
\<close>

theorem hopen_cip_truncated_header:
  assumes key: "getenv_op env ''HTS_CIP_KEY'' = Some key"
      and init: "hfile_init_op env mode = None"
      and opn: "hopen_op env (strip_cip_scheme filename) mode = Inr r"
      and acc: "hfile_oflags_op env mode AND O_ACCMODE = O_RDONLY"
      and rd: "hread_op env r 16 = (r', Inr bs)"
      and short: "length bs < 16"
  shows "hopen_cip env w filename mode =
           (w\<lparr>errno := EDOM,
              trace := trace w @
                [Getenv ''HTS_CIP_KEY'', HfileInit mode,
                 Hopen (strip_cip_scheme filename) mode, Malloc (8192 * 16), Hread 16,
                 HcloseAbruptly, Free True, HfileDestroy]\<rparr>, None)"
  using assms
  by (simp add: hopen_cip_def getenv_def hfile_init_def hopen_def malloc_def hread_def
        log_def hopen_cip_error_Some BLOCKSIZE_def)

theorem hopen_cip_truncated_header_witness:
  "hopen_cip (mem_env demo_ks demo_kdf demo_rnd (Some ''secret'') [1, 2, 3]) w0
       ''cip:reads.bam'' ''r'' =
     (\<lparr>errno = EDOM,
       trace = [Getenv ''HTS_CIP_KEY'', HfileInit ''r'', Hopen ''reads.bam'' ''r'',
                Malloc 131072, Hread 16, HcloseAbruptly, Free True, HfileDestroy]\<rparr>, None)"
  using hopen_cip_truncated_header
    [of "mem_env demo_ks demo_kdf demo_rnd (Some ''secret'') [1, 2, 3]" "''secret''" "''r''"
        "''cip:reads.bam''" "\<lparr>content = [1, 2, 3], pos = 0\<rparr>"
        "\<lparr>content = [1, 2, 3], pos = 3\<rparr>" "[1, 2, 3]" w0]
  by (simp add: mem_env_def w0_def strip_cip_scheme_def strncmp_eq_def oflag_defs)

lemma trace_hopen_cip_bad_mode:
  assumes "hfile_oflags_op env mode AND O_ACCMODE \<noteq> O_RDONLY"
      and "hfile_oflags_op env mode AND O_ACCMODE \<noteq> O_WRONLY"
  shows "snd (hopen_cip env w filename mode) = None \<and>
         filter is_cipher_setup (trace (fst (hopen_cip env w filename mode))) =
           filter is_cipher_setup (trace w)"
  using assms
  by (simp add: hopen_cip_def getenv_def hfile_init_def hopen_def malloc_def
        log_def trace_hopen_cip_error Let_def split: option.splits sum.splits)

text \<open>
  C10: when the access mode of \<open>mode\<close> is neither \<^verbatim>\<open>O_RDONLY\<close> nor \<^verbatim>\<open>O_WRONLY\<close>, \<open>hopen_cip\<close>
  returns \<^verbatim>\<open>NULL\<close> and adds no key derivation and no cipher initialisation to the trace;
  and when the open got as far as the underlying stream (passphrase set, handle
  allocated, underlying stream opened), \<^verbatim>\<open>errno\<close> is \<^verbatim>\<open>EINVAL\<close> and the calls after the
  \<^verbatim>\<open>hopen\<close> and the \<^verbatim>\<open>malloc\<close> are \<^verbatim>\<open>hclose_abruptly\<close>, \<^verbatim>\<open>free\<close> of the buffer and
  \<^verbatim>\<open>hfile_destroy\<close>.
\<close>

theorem hopen_cip_bad_mode:
  assumes "hfile_oflags_op env mode AND O_ACCMODE \<noteq> O_RDONLY"
      and "hfile_oflags_op env mode AND O_ACCMODE \<noteq> O_WRONLY"
  shows "snd (hopen_cip env w filename mode) = None \<and>
         filter is_cipher_setup (trace (fst (hopen_cip env w filename mode))) =
           filter is_cipher_setup (trace w) \<and>
         (getenv_op env ''HTS_CIP_KEY'' = Some key \<and> hfile_init_op env mode = None \<and>
          hopen_op env (strip_cip_scheme filename) mode = Inr r \<longrightarrow>
            hopen_cip env w filename mode =
              (w\<lparr>errno := EINVAL,
                 trace := trace w @
                   [Getenv ''HTS_CIP_KEY'', HfileInit mode,
                    Hopen (strip_cip_scheme filename) mode, Malloc (8192 * 16),
                    HcloseAbruptly, Free True, HfileDestroy]\<rparr>, None))"
proof -
  have "hopen_cip env w filename mode =
              (w\<lparr>errno := EINVAL,
                 trace := trace w @
                   [Getenv ''HTS_CIP_KEY'', HfileInit mode,
                    Hopen (strip_cip_scheme filename) mode, Malloc (8192 * 16),
                    HcloseAbruptly, Free True, HfileDestroy]\<rparr>, None)"
    if "getenv_op env ''HTS_CIP_KEY'' = Some key" "hfile_init_op env mode = None"
       "hopen_op env (strip_cip_scheme filename) mode = Inr r"
    using that assms
    by (simp add: hopen_cip_def getenv_def hfile_init_def hopen_def malloc_def
        log_def hopen_cip_error_Some BLOCKSIZE_def)
  then show ?thesis
    using trace_hopen_cip_bad_mode [OF assms] by blast
qed

theorem hopen_cip_bad_mode_witness:
  "hopen_cip (mem_env demo_ks demo_kdf demo_rnd (Some ''secret'') [1, 2, 3]) w0
       ''cip:reads.bam'' ''r+'' =
     (\<lparr>errno = EINVAL,
       trace = [Getenv ''HTS_CIP_KEY'', HfileInit ''r+'', Hopen ''reads.bam'' ''r+'',
                Malloc 131072, HcloseAbruptly, Free True, HfileDestroy]\<rparr>, None)"
  using hopen_cip_bad_mode
    [of "mem_env demo_ks demo_kdf demo_rnd (Some ''secret'') [1, 2, 3]" "''r+''"
        w0 "''cip:reads.bam''" "''secret''" "\<lparr>content = [1, 2, 3], pos = 0\<rparr>"]
  by (simp add: mem_env_def w0_def strip_cip_scheme_def strncmp_eq_def oflag_defs)


subsection \<open>Closing\<close>

lemma crypto_errno_nonzero: "st \<noteq> kCCSuccess \<Longrightarrow> crypto_errno lib st \<noteq> 0"
  by (cases lib; cases st) (simp_all add: crypto_errno_def ssl_errno_def errno_defs)

lemma cip_close_final_err:
  assumes wr: "\<forall>r bs. snd (hwrite_op env r bs) \<noteq> Inl 0 \<and>
                 (\<forall>k. snd (hwrite_op env r bs) = Inr k \<longrightarrow> k = length bs)"
  shows "snd (snd (cip_close_final env w fp 0)) =
           (case final_stage_error env fp of Some e \<Rightarrow> e | None \<Rightarrow> 0)"
proof (cases "is_write fp")
  case False
  then show ?thesis by (simp add: cip_close_final_def final_stage_error_def)
next
  case True
  obtain c' st out where f: "cipher_final_op env (ctx fp) (bufsize fp) = (c', st, out)"
    by (cases "cipher_final_op env (ctx fp) (bufsize fp)") auto
  obtain r' res where h: "hwrite_op env (rawfp fp) out = (r', res)"
    by (cases "hwrite_op env (rawfp fp) out") auto
  from wr have "snd (hwrite_op env (rawfp fp) out) \<noteq> Inl 0 \<and>
     (\<forall>k. snd (hwrite_op env (rawfp fp) out) = Inr k \<longrightarrow> k = length out)" by blast
  with h have r: "res \<noteq> Inl 0" "\<And>k. res = Inr k \<Longrightarrow> k = length out" by auto
  show ?thesis
    using True f h r
    by (cases res)
       (auto simp add: cip_close_final_def final_stage_error_def cipher_final_def
          hwrite_def log_def)
qed

lemma cip_close_unfold:
  assumes "cip_close_final env w fp 0 = (w1, fp1, err1)"
  shows "cip_close env w fp =
     (let err2 = (case release_stage_error env (ctx fp1) of Some e \<Rightarrow> e | None \<Rightarrow> err1);
          err3 = (case close_stage_error env (rawfp fp1) of Some e \<Rightarrow> e | None \<Rightarrow> err2);
          w3 = w1\<lparr>trace := trace w1 @ [CipherRelease, Hclose]\<rparr>
      in if err3 \<noteq> 0
         then (w3\<lparr>errno := err3\<rparr>, fp1\<lparr>rawfp := fst (hclose_op env (rawfp fp1))\<rparr>, -1)
         else (case close_stage_error env (rawfp fp1) of
                 Some e \<Rightarrow> (w3\<lparr>errno := e\<rparr>, fp1\<lparr>rawfp := fst (hclose_op env (rawfp fp1))\<rparr>, 0)
               | None \<Rightarrow> (w3, fp1\<lparr>rawfp := fst (hclose_op env (rawfp fp1))\<rparr>, 0)))"
  using assms
  by (cases "hclose_op env (rawfp fp1)")
     (auto simp add: cip_close_def cip_close_release_def hclose_def log_def Let_def
        release_stage_error_def close_stage_error_def split: option.splits)

text \<open>
  C1, as stated: when several stages of a close fail, the error reported is the first
  one recorded; when the write of the final block fails and the close of the underlying
  stream fails too, the error of the write is reported. In \<open>close_fail_env\<close> the write
  fails with \<^verbatim>\<open>ENOSPC\<close>, the close with \<^verbatim>\<open>EIO\<close>, every stage is run, and \<open>cip_close\<close>
  reports \<^verbatim>\<open>EIO\<close>.
\<close>

theorem cip_close_first_error_counterexample:
  "first_error
     [final_stage_error close_fail_env (demo_fp True),
      release_stage_error close_fail_env
        (ctx (fst (snd (cip_close_final close_fail_env w0 (demo_fp True) 0)))),
      close_stage_error close_fail_env
        (rawfp (fst (snd (cip_close_final close_fail_env w0 (demo_fp True) 0))))] =
     Some ENOSPC \<and>
   snd (snd (cip_close close_fail_env w0 (demo_fp True))) = -1 \<and>
   errno (fst (cip_close close_fail_env w0 (demo_fp True))) = EIO \<and>
   EIO \<noteq> ENOSPC \<and>
   trace (fst (cip_close close_fail_env w0 (demo_fp True))) =
     [CipherFinal, Hwrite [170], CipherRelease, Hclose]"
  by (simp add: close_fail_env_def mem_env_def demo_fp_def w0_def final_stage_error_def
        close_stage_error_def release_stage_error_def cip_close_def cip_close_final_def cip_close_release_def
        cipher_final_def hwrite_def hclose_def log_def store_def errno_defs)

text \<open>
  C1, amended: every close runs its three stages whatever the earlier ones did (the
  release of the context and the close of the underlying stream are the last two calls);
  the error reported is the last one recorded, that of the latest stage that failed; and
  the close returns 0 exactly when all three stages succeeded. This is for an underlying
  stream whose failing calls leave a nonzero \<^verbatim>\<open>errno\<close> and whose writes are complete or
  fail, as htslib documents \<^verbatim>\<open>hwrite\<close> and \<^verbatim>\<open>hclose\<close>.
\<close>

theorem cip_close_last_error:
  assumes wr: "\<forall>r bs. snd (hwrite_op env r bs) \<noteq> Inl 0 \<and>
                 (\<forall>k. snd (hwrite_op env r bs) = Inr k \<longrightarrow> k = length bs)"
      and cl: "\<forall>r. snd (hclose_op env r) \<noteq> Some 0"
      and s1: "s1 = cip_close_final env w fp 0"
      and errs: "errs = [final_stage_error env fp,
                         release_stage_error env (ctx (fst (snd s1))),
                         close_stage_error env (rawfp (fst (snd s1)))]"
  shows "trace (fst (cip_close env w fp)) = trace (fst s1) @ [CipherRelease, Hclose] \<and>
         snd (snd (cip_close env w fp)) = (if errs = [None, None, None] then 0 else -1) \<and>
         (\<forall>e. last_error errs = Some e \<longrightarrow> errno (fst (cip_close env w fp)) = e) \<and>
         (last_error errs = None \<longrightarrow> errno (fst (cip_close env w fp)) = errno (fst s1))"
proof -
  obtain w1 fp1 err1 where f: "cip_close_final env w fp 0 = (w1, fp1, err1)"
    by (cases "cip_close_final env w fp 0") auto
  have e1: "err1 = (case final_stage_error env fp of Some e \<Rightarrow> e | None \<Rightarrow> 0)"
    using cip_close_final_err [OF wr, of w fp] f by simp
  have n1: "final_stage_error env fp \<noteq> Some 0"
  proof (cases "is_write fp")
    case False
    then show ?thesis by (simp add: final_stage_error_def)
  next
    case True
    obtain c' st out where g: "cipher_final_op env (ctx fp) (bufsize fp) = (c', st, out)"
      by (cases "cipher_final_op env (ctx fp) (bufsize fp)") auto
    from wr have "snd (hwrite_op env (rawfp fp) out) \<noteq> Inl 0" by blast
    then show ?thesis
      using True g crypto_errno_nonzero [of st "crypto_lib env"]
      by (auto simp add: final_stage_error_def split: sum.splits)
  qed
  have n2: "release_stage_error env (ctx fp1) \<noteq> Some 0"
    using crypto_errno_nonzero [of "cipher_release_op env (ctx fp1)" "crypto_lib env"]
    by (simp add: release_stage_error_def)
  have n3: "close_stage_error env (rawfp fp1) \<noteq> Some 0"
    using cl by (simp add: close_stage_error_def)
  show ?thesis
    using e1 n1 n2 n3
    by (cases "final_stage_error env fp"; cases "release_stage_error env (ctx fp1)";
        cases "close_stage_error env (rawfp fp1)")
       (simp_all add: cip_close_unfold [OF f] s1 errs f last_error_def Let_def)
qed

theorem cip_close_last_error_witness:
  "snd (snd (cip_close release_fail_env w0 (demo_fp True))) = -1 \<and>
   errno (fst (cip_close release_fail_env w0 (demo_fp True))) = ENOMEM \<and>
   final_stage_error release_fail_env (demo_fp True) = Some EINVAL"
  using cip_close_last_error
    [of release_fail_env "cip_close_final release_fail_env w0 (demo_fp True) 0" w0
        "demo_fp True" "[Some EINVAL, Some ENOMEM, None]"]
  by (simp add: release_fail_env_def mem_env_def demo_fp_def w0_def final_stage_error_def
        release_stage_error_def close_stage_error_def cip_close_final_def
        cipher_final_def log_def crypto_errno_def last_error_def)


subsection \<open>Reading\<close>

lemma read_steps_Suc:
  assumes "read_steps env (Suc j) w fp nbytes = Some (wj, fpj, nj, outs)"
      and "n = (if nbytes < bufsize fp then nbytes else bufsize fp)"
  shows "\<exists>r1 bs c2 out outs'.
           0 < nbytes \<and> hread_op env (rawfp fp) n = (r1, Inr bs) \<and> take n bs \<noteq> [] \<and>
           cipher_update_op env (ctx fp) (take n bs) = (c2, kCCSuccess, out) \<and>
           read_steps env j (w\<lparr>trace := trace w @ [Hread n, CipherUpdate (take n bs)]\<rparr>)
             (fp\<lparr>rawfp := r1, buffer := store (take n bs) (buffer fp), ctx := c2\<rparr>)
             (size_sub nbytes (length out)) = Some (wj, fpj, nj, outs') \<and>
           outs = out # outs'"
proof -
  have nz: "nbytes \<noteq> 0" using assms(1) by (cases "nbytes = 0") simp_all
  obtain r1 res where hr: "hread_op env (rawfp fp) n = (r1, res)"
    by (cases "hread_op env (rawfp fp) n") auto
  obtain bs where res: "res = Inr bs"
    using assms(1) nz hr by (cases res) (simp_all add: assms(2) [symmetric])
  have ne: "take n bs \<noteq> []"
    using assms(1) nz hr res by (cases "take n bs = []") (simp_all add: assms(2) [symmetric])
  obtain c2 st out where cu: "cipher_update_op env (ctx fp) (take n bs) = (c2, st, out)"
    by (cases "cipher_update_op env (ctx fp) (take n bs)") auto
  have st: "st = kCCSuccess"
    using assms(1) nz hr res ne cu
    by (cases "st = kCCSuccess") (simp_all add: assms(2) [symmetric])
  let ?rec = "read_steps env j (w\<lparr>trace := trace w @ [Hread n, CipherUpdate (take n bs)]\<rparr>)
             (fp\<lparr>rawfp := r1, buffer := store (take n bs) (buffer fp), ctx := c2\<rparr>)
             (size_sub nbytes (length out))"
  obtain outs' where "?rec = Some (wj, fpj, nj, outs')" "outs = out # outs'"
    using assms(1) nz hr res ne cu st
    by (cases ?rec) (auto simp add: assms(2) [symmetric])
  with nz hr res ne cu st show ?thesis by auto
qed

lemma read_steps_loop:
  assumes "read_steps env j w fp nbytes = Some (wj, fpj, nj, outs)"
  shows "cip_read_loop env w fp nbytes tot = cip_read_loop env wj fpj nj (tot @ concat outs) \<and>
         errno wj = errno w \<and> length outs = j"
  using assms
proof (induction j arbitrary: w fp nbytes tot outs)
  case 0
  then show ?case by simp
next
  case (Suc j)
  define n where "n = (if nbytes < bufsize fp then nbytes else bufsize fp)"
  from read_steps_Suc [OF Suc.prems n_def] obtain r1 bs c2 out outs' where
    pos: "0 < nbytes" and hr: "hread_op env (rawfp fp) n = (r1, Inr bs)"
    and ne: "take n bs \<noteq> []"
    and cu: "cipher_update_op env (ctx fp) (take n bs) = (c2, kCCSuccess, out)"
    and rec: "read_steps env j (w\<lparr>trace := trace w @ [Hread n, CipherUpdate (take n bs)]\<rparr>)
             (fp\<lparr>rawfp := r1, buffer := store (take n bs) (buffer fp), ctx := c2\<rparr>)
             (size_sub nbytes (length out)) = Some (wj, fpj, nj, outs')"
    and o: "outs = out # outs'"
    by blast
  define w2 where "w2 = w\<lparr>trace := trace w @ [Hread n, CipherUpdate (take n bs)]\<rparr>"
  define fp2 where
    "fp2 = fp\<lparr>rawfp := r1, buffer := store (take n bs) (buffer fp), ctx := c2\<rparr>"
  have hw: "hread env w (rawfp fp) n = (w\<lparr>trace := trace w @ [Hread n]\<rparr>, r1, Some (take n bs))"
    using hr by (simp add: hread_def log_def)
  have cw: "cipher_update env (w\<lparr>trace := trace w @ [Hread n]\<rparr>) (ctx fp) (take n bs) =
              (w2, c2, Some out)"
    using cu by (simp add: cipher_update_def log_def w2_def)
  have step: "cip_read_loop env w fp nbytes tot =
                cip_read_loop env w2 fp2 (size_sub nbytes (length out)) (tot @ out)"
    using pos ne
    by (subst cip_read_loop.simps) (simp add: n_def [symmetric] hw cw fp2_def)
  from Suc.IH [OF rec [folded w2_def fp2_def], of "tot @ out"]
  have ih: "cip_read_loop env w2 fp2 (size_sub nbytes (length out)) (tot @ out) =
              cip_read_loop env wj fpj nj ((tot @ out) @ concat outs')"
    and e: "errno wj = errno w2" and l: "length outs' = j"
    by simp_all
  have "errno w2 = errno w" by (simp add: w2_def)
  with step ih e l o show ?case by simp
qed

text \<open>
  C7: take any \<open>cip_read\<close> call and any number \<open>j\<close> of complete rounds at its start,
  with bytes still asked for after them. If the next underlying read gives zero bytes, the
  call returns all the bytes the cipher gave in those rounds, in order, and \<^verbatim>\<open>errno\<close> is
  as it was at the call. If the next underlying read fails, the call returns \<open>-1\<close> with
  the \<^verbatim>\<open>errno\<close> of that read, however many bytes the rounds had given. In both cases the
  read is the last call made.
\<close>

theorem cip_read_eof_and_error:
  assumes "read_steps env j w fp nbytes = Some (wj, fpj, nj, outs)"
      and "0 < nj"
      and "n = (if nj < bufsize fpj then nj else bufsize fpj)"
  shows "length outs = j \<and> errno wj = errno w \<and>
         (hread_op env (rawfp fpj) n = (r1, Inr bs) \<and> take n bs = [] \<longrightarrow>
            cip_read env w fp nbytes =
              Some (wj\<lparr>trace := trace wj @ [Hread n]\<rparr>, fpj\<lparr>rawfp := r1\<rparr>,
                    Some (concat outs))) \<and>
         (hread_op env (rawfp fpj) n = (r1, Inl e) \<longrightarrow>
            cip_read env w fp nbytes =
              Some (wj\<lparr>errno := e, trace := trace wj @ [Hread n]\<rparr>, fpj\<lparr>rawfp := r1\<rparr>,
                    None))"
proof -
  from read_steps_loop [OF assms(1), of "[]"]
  have eq: "cip_read env w fp nbytes = cip_read_loop env wj fpj nj (concat outs)"
    and e: "errno wj = errno w" and l: "length outs = j"
    by (simp_all add: cip_read_def)
  have a: "cip_read_loop env wj fpj nj (concat outs) =
             Some (wj\<lparr>trace := trace wj @ [Hread n]\<rparr>, fpj\<lparr>rawfp := r1\<rparr>, Some (concat outs))"
    if "hread_op env (rawfp fpj) n = (r1, Inr bs)" "take n bs = []"
    using that assms(2)
    by (subst cip_read_loop.simps) (simp add: assms(3) [symmetric] hread_def log_def)
  have b: "cip_read_loop env wj fpj nj (concat outs) =
             Some (wj\<lparr>errno := e, trace := trace wj @ [Hread n]\<rparr>, fpj\<lparr>rawfp := r1\<rparr>, None)"
    if "hread_op env (rawfp fpj) n = (r1, Inl e)"
    using that assms(2)
    by (subst cip_read_loop.simps) (simp add: assms(3) [symmetric] hread_def log_def)
  from a b e l show ?thesis unfolding eq by blast
qed

lemma size_sub_demo: "size_sub 8 4 = 4" "size_sub 4 2 = 2"
  by (simp_all add: size_sub_def)

theorem cip_read_eof_and_error_witness:
  "cip_read (mem_env demo_ks demo_kdf demo_rnd (Some ''secret'') []) w0
     (demo_rfp [1, 2, 3, 4, 5, 6] 0) 8 =
   Some (\<lparr>errno = 0,
           trace = [Hread 4, CipherUpdate [1, 2, 3, 4], Hread 4, CipherUpdate [5, 6], Hread 2]\<rparr>,
         \<lparr>is_write = False, buffer = [5, 6, 3, 4], bufsize = 4,
          rawfp = \<lparr>content = [1, 2, 3, 4, 5, 6], pos = 6\<rparr>,
          ctx = \<lparr>ctr_key = [], ctr_iv = [], ctr_pos = 6\<rparr>\<rparr>,
         Some [1, 5, 13, 17, 25, 37]) \<and>
   cip_read read_fail_env w0 (demo_rfp [1, 2, 3, 4, 5, 6] 0) 8 =
   Some (\<lparr>errno = EIO, trace = [Hread 4, CipherUpdate [1, 2, 3, 4], Hread 4]\<rparr>,
         \<lparr>is_write = False, buffer = [1, 2, 3, 4], bufsize = 4,
          rawfp = \<lparr>content = [1, 2, 3, 4, 5, 6], pos = 4\<rparr>,
          ctx = \<lparr>ctr_key = [], ctr_iv = [], ctr_pos = 4\<rparr>\<rparr>,
         None)"
proof -
  have a: "cip_read (mem_env demo_ks demo_kdf demo_rnd (Some ''secret'') []) w0
     (demo_rfp [1, 2, 3, 4, 5, 6] 0) 8 =
   Some (\<lparr>errno = 0,
           trace = [Hread 4, CipherUpdate [1, 2, 3, 4], Hread 4, CipherUpdate [5, 6], Hread 2]\<rparr>,
         \<lparr>is_write = False, buffer = [5, 6, 3, 4], bufsize = 4,
          rawfp = \<lparr>content = [1, 2, 3, 4, 5, 6], pos = 6\<rparr>,
          ctx = \<lparr>ctr_key = [], ctr_iv = [], ctr_pos = 6\<rparr>\<rparr>,
         Some [1, 5, 13, 17, 25, 37])"
    using cip_read_eof_and_error
      [where env = "mem_env demo_ks demo_kdf demo_rnd (Some ''secret'') []" and w = w0
         and fp = "demo_rfp [1, 2, 3, 4, 5, 6] 0" and nbytes = 8 and j = "Suc (Suc 0)"
         and wj = "\<lparr>errno = 0,
             trace = [Hread 4, CipherUpdate [1, 2, 3, 4], Hread 4, CipherUpdate [5, 6]]\<rparr>"
         and fpj = "\<lparr>is_write = False, buffer = [5, 6, 3, 4], bufsize = 4,
             rawfp = \<lparr>content = [1, 2, 3, 4, 5, 6], pos = 6\<rparr>,
             ctx = \<lparr>ctr_key = [], ctr_iv = [], ctr_pos = 6\<rparr>\<rparr>"
         and nj = 2 and outs = "[[1, 5, 13, 17], [25, 37]]" and n = 2
         and ?r1.0 = "\<lparr>content = [1, 2, 3, 4, 5, 6], pos = 6\<rparr>" and bs = "[]"]
    by (simp add: mem_env_def demo_rfp_def w0_def store_def size_sub_le demo_ks_simp Let_def)
  have b: "cip_read read_fail_env w0 (demo_rfp [1, 2, 3, 4, 5, 6] 0) 8 =
   Some (\<lparr>errno = EIO, trace = [Hread 4, CipherUpdate [1, 2, 3, 4], Hread 4]\<rparr>,
         \<lparr>is_write = False, buffer = [1, 2, 3, 4], bufsize = 4,
          rawfp = \<lparr>content = [1, 2, 3, 4, 5, 6], pos = 4\<rparr>,
          ctx = \<lparr>ctr_key = [], ctr_iv = [], ctr_pos = 4\<rparr>\<rparr>,
         None)"
    using cip_read_eof_and_error
      [where env = read_fail_env and w = w0
         and fp = "demo_rfp [1, 2, 3, 4, 5, 6] 0" and nbytes = 8 and j = "Suc 0"
         and wj = "\<lparr>errno = 0, trace = [Hread 4, CipherUpdate [1, 2, 3, 4]]\<rparr>"
         and fpj = "\<lparr>is_write = False, buffer = [1, 2, 3, 4], bufsize = 4,
             rawfp = \<lparr>content = [1, 2, 3, 4, 5, 6], pos = 4\<rparr>,
             ctx = \<lparr>ctr_key = [], ctr_iv = [], ctr_pos = 4\<rparr>\<rparr>"
         and nj = 4 and outs = "[[1, 5, 13, 17]]" and n = 4
         and ?r1.0 = "\<lparr>content = [1, 2, 3, 4, 5, 6], pos = 4\<rparr>" and e = EIO]
    by (simp add: read_fail_env_def mem_env_def demo_rfp_def w0_def store_def size_sub_le Let_def
          demo_ks_simp)
  from a b show ?thesis by (rule conjI)
qed

subsection \<open>Writing\<close>

lemma cip_write_loop_count:
  assumes "cip_write_loop env w fp data tot = Some y"
  shows "\<forall>w' fp' k. y = (w', fp', Some k) \<longrightarrow> k = tot + length data"
  using assms
proof (induction env w fp data tot y rule: cip_write_loop.raw_induct [rotated 1, consumes 1])
  case (1 loop env w fp data tot y)
  show ?case
  proof (cases "0 < length data")
    case False
    with "1.hyps" show ?thesis by auto
  next
    case True
    define n where "n = (if length data < bufsize fp then length data else bufsize fp)"
    have nle: "n \<le> length data" by (simp add: n_def)
    obtain w1 c1 res1 where cu: "cipher_update env w (ctx fp) (take n data) = (w1, c1, res1)"
      by (cases "cipher_update env w (ctx fp) (take n data)") auto
    show ?thesis
    proof (cases res1)
      case None
      with "1.hyps" True cu show ?thesis by (auto simp add: n_def [symmetric])
    next
      case (Some out)
      obtain w2 r2 res where hw: "hwrite env w1 (rawfp fp) out = (w2, r2, res)"
        by (cases "hwrite env w1 (rawfp fp) out") auto
      show ?thesis
      proof (cases "res = Some (length out)")
        case False
        with "1.hyps" True cu Some hw show ?thesis by (auto simp add: n_def [symmetric])
      next
        case r: True
        from "1.hyps" True cu Some hw r
        have "loop env w2 (fp\<lparr>ctx := c1, buffer := store out (buffer fp), rawfp := r2\<rparr>)
                (drop n data) (tot + n) = Some y"
          by (simp add: n_def [symmetric])
        from "1.IH" [OF this] nle show ?thesis by auto
      qed
    qed
  qed
qed

lemma chunks_Nil [simp]: "chunks n [] = []"
  by (simp add: chunks.simps)

lemma chunks_0 [simp]: "chunks 0 xs = []"
  by (simp add: chunks.simps)

lemma chunks_Cons: "0 < n \<Longrightarrow> xs \<noteq> [] \<Longrightarrow> chunks n xs = take n xs # chunks n (drop n xs)"
  by (subst chunks.simps) simp

lemma concat_chunks: "0 < n \<Longrightarrow> concat (chunks n xs) = xs"
proof (induction n xs rule: chunks.induct)
  case (1 n xs)
  show ?case
  proof (cases "xs = []")
    case True
    then show ?thesis by simp
  next
    case False
    with 1 show ?thesis by (simp add: chunks_Cons)
  qed
qed

lemma cip_write_loop_spec:
  assumes "0 < bufsize fp"
  shows "cip_write_loop env w fp data tot =
           Some (spec_write env w fp (chunks (bufsize fp) data) tot)"
  using assms
proof (induction "length data" arbitrary: w fp data tot rule: less_induct)
  case less
  show ?case
  proof (cases "0 < length data")
    case False
    then show ?thesis by (subst cip_write_loop.simps) simp
  next
    case True
    define n where "n = (if length data < bufsize fp then length data else bufsize fp)"
    have npos: "0 < n" using True less.prems by (simp add: n_def)
    have tk: "take n data = take (bufsize fp) data" by (simp add: n_def)
    have dr: "drop n data = drop (bufsize fp) data" by (simp add: n_def)
    have ln: "min (length data) (bufsize fp) = n" by (simp add: n_def min_def)
    define ch where "ch = take (bufsize fp) data"
    have chs: "chunks (bufsize fp) data = ch # chunks (bufsize fp) (drop (bufsize fp) data)"
      using True less.prems by (simp add: chunks_Cons ch_def)
    obtain c1 st out where cu: "cipher_update_op env (ctx fp) ch = (c1, st, out)"
      by (cases "cipher_update_op env (ctx fp) ch") auto
    show ?thesis
    proof (cases "st = kCCSuccess")
      case False
      have "cip_write_loop env w fp data tot =
              Some (w\<lparr>errno := crypto_errno (crypto_lib env) st,
                      trace := trace w @ [CipherUpdate ch]\<rparr>, fp\<lparr>ctx := c1\<rparr>, None)"
        using True False cu
        by (subst cip_write_loop.simps)
           (simp add: n_def [symmetric] tk ch_def [symmetric] cipher_update_def log_def)
      then show ?thesis unfolding chs using False cu by simp
    next
      case st: True
      obtain r2 res where hw: "hwrite_op env (rawfp fp) out = (r2, res)"
        by (cases "hwrite_op env (rawfp fp) out") auto
      define fp2 where "fp2 = fp\<lparr>ctx := c1, buffer := store out (buffer fp), rawfp := r2\<rparr>"
      define w2 where "w2 = w\<lparr>trace := trace w @ [CipherUpdate ch, Hwrite out]\<rparr>"
      have cw: "cipher_update env w (ctx fp) ch =
                  (w\<lparr>trace := trace w @ [CipherUpdate ch]\<rparr>, c1, Some out)"
        using cu st by (simp add: cipher_update_def log_def)
      show ?thesis
      proof (cases "res = Inr (length out)")
        case True
        have hwr: "hwrite env (w\<lparr>trace := trace w @ [CipherUpdate ch]\<rparr>) (rawfp fp) out =
                     (w2, r2, Some (length out))"
          using hw True by (simp add: hwrite_def log_def w2_def)
        have step: "cip_write_loop env w fp data tot =
                      cip_write_loop env w2 fp2 (drop (bufsize fp) data) (tot + n)"
          using \<open>0 < length data\<close>
          by (subst cip_write_loop.simps)
             (simp add: n_def [symmetric] tk dr ch_def [symmetric] cw hwr fp2_def)
        have "length (drop (bufsize fp) data) < length data"
          using \<open>0 < length data\<close> less.prems by simp
        moreover have b2: "bufsize fp2 = bufsize fp" by (simp add: fp2_def)
        ultimately have ih: "cip_write_loop env w2 fp2 (drop (bufsize fp) data) (tot + n) =
            Some (spec_write env w2 fp2 (chunks (bufsize fp) (drop (bufsize fp) data)) (tot + n))"
          using less.hyps [of "drop (bufsize fp) data" fp2 w2 "tot + n"] less.prems by simp
        have "spec_write env w fp (ch # chunks (bufsize fp) (drop (bufsize fp) data)) tot =
                spec_write env w2 fp2 (chunks (bufsize fp) (drop (bufsize fp) data)) (tot + n)"
          using cu st hw True by (simp add: w2_def fp2_def ch_def ln)
        then show ?thesis unfolding chs step ih by simp
      next
        case False
        define w3 where
          "w3 = w\<lparr>errno := (case res of Inl e \<Rightarrow> e | Inr k \<Rightarrow> errno w),
                  trace := trace w @ [CipherUpdate ch, Hwrite out]\<rparr>"
        have hwr: "\<exists>res'. hwrite env (w\<lparr>trace := trace w @ [CipherUpdate ch]\<rparr>) (rawfp fp) out =
                     (w3, r2, res') \<and> res' \<noteq> Some (length out)"
          using hw False by (cases res) (simp_all add: hwrite_def log_def w3_def)
        then obtain res' where
          hwr': "hwrite env (w\<lparr>trace := trace w @ [CipherUpdate ch]\<rparr>) (rawfp fp) out =
                     (w3, r2, res')" "res' \<noteq> Some (length out)"
          by blast
        have "cip_write_loop env w fp data tot = Some (w3, fp2, None)"
          using \<open>0 < length data\<close> hwr'(2)
          by (subst cip_write_loop.simps)
             (simp add: n_def [symmetric] tk ch_def [symmetric] cw hwr'(1) fp2_def)
        moreover have "spec_write env w fp (ch # chunks (bufsize fp) (drop (bufsize fp) data)) tot =
                (w3, fp2, None)"
          using cu st hw False by (simp add: w3_def fp2_def)
        ultimately show ?thesis unfolding chs by simp
      qed
    qed
  qed
qed

lemma cipher_outputs_length:
  "cipher_outputs env c chs = Some (c', outs) \<Longrightarrow> length outs = length chs"
proof (induction chs arbitrary: c c' outs)
  case Nil
  then show ?case by simp
next
  case (Cons ch chs)
  obtain c1 st out where cu: "cipher_update_op env c ch = (c1, st, out)"
    by (cases "cipher_update_op env c ch") auto
  show ?case
  proof (cases "cipher_outputs env c1 chs")
    case None
    with Cons.prems cu show ?thesis by (simp split: if_splits)
  next
    case (Some t)
    obtain c2 outs' where t: "t = (c2, outs')" by (cases t) auto
    from Cons.prems cu Some t have "outs = out # outs'" by (simp split: if_splits)
    moreover have "length outs' = length chs" using Cons.IH [of c1 c2 outs'] Some t by simp
    ultimately show ?thesis by simp
  qed
qed

lemma cipher_outputs_Cons:
  assumes "cipher_outputs env c (ch # chs) = Some (c', outs)"
  shows "\<exists>c1 out outs'. cipher_update_op env c ch = (c1, kCCSuccess, out) \<and>
           cipher_outputs env c1 chs = Some (c', outs') \<and> outs = out # outs'"
proof -
  obtain c1 st out where cu: "cipher_update_op env c ch = (c1, st, out)"
    by (cases "cipher_update_op env c ch") auto
  show ?thesis
  proof (cases "cipher_outputs env c1 chs")
    case None
    with assms cu show ?thesis by (simp split: if_splits)
  next
    case (Some t)
    obtain c2 outs' where t: "t = (c2, outs')" by (cases t) auto
    from assms cu Some t have "st = kCCSuccess" "c2 = c'" "outs = out # outs'"
      by (simp_all split: if_splits)
    with cu Some t show ?thesis by simp
  qed
qed

lemma accept_all_Cons:
  assumes "accept_all env r (out # outs) = Some r'"
  shows "\<exists>r1. hwrite_op env r out = (r1, Inr (length out)) \<and> accept_all env r1 outs = Some r'"
proof -
  obtain r1 res where hw: "hwrite_op env r out = (r1, res)"
    by (cases "hwrite_op env r out") auto
  from assms hw have "res = Inr (length out)" "accept_all env r1 outs = Some r'"
    by (simp_all split: if_splits)
  with hw show ?thesis by simp
qed

lemma spec_write_prefix:
  assumes "cipher_outputs env (ctx fp) pre = Some (cp, outs)"
      and "accept_all env (rawfp fp) outs = Some rp"
  shows "\<exists>buf. spec_write env w fp (pre @ rest) tot =
           spec_write env (w\<lparr>trace := trace w @ chunk_events pre outs\<rparr>)
             (fp\<lparr>ctx := cp, buffer := buf, rawfp := rp\<rparr>) rest (tot + length (concat pre))"
  using assms
proof (induction pre arbitrary: w fp tot outs)
  case Nil
  then have "cp = ctx fp" "outs = []" "rp = rawfp fp" by simp_all
  then have "spec_write env w fp ([] @ rest) tot =
           spec_write env (w\<lparr>trace := trace w @ chunk_events [] outs\<rparr>)
             (fp\<lparr>ctx := cp, buffer := buffer fp, rawfp := rp\<rparr>) rest (tot + length (concat []))"
    by simp
  then show ?case by blast
next
  case (Cons ch pre)
  from cipher_outputs_Cons [OF Cons.prems(1)] obtain c1 out outs' where
    cu: "cipher_update_op env (ctx fp) ch = (c1, kCCSuccess, out)"
    and co: "cipher_outputs env c1 pre = Some (cp, outs')" and o: "outs = out # outs'"
    by blast
  from accept_all_Cons [OF Cons.prems(2) [unfolded o]] obtain r1 where
    hw: "hwrite_op env (rawfp fp) out = (r1, Inr (length out))"
    and aa: "accept_all env r1 outs' = Some rp"
    by blast
  define fp2 where "fp2 = fp\<lparr>ctx := c1, buffer := store out (buffer fp), rawfp := r1\<rparr>"
  define w2 where "w2 = w\<lparr>trace := trace w @ [CipherUpdate ch, Hwrite out]\<rparr>"
  have f2: "ctx fp2 = c1" "rawfp fp2 = r1" by (simp_all add: fp2_def)
  have s1: "spec_write env w fp ((ch # pre) @ rest) tot =
              spec_write env w2 fp2 (pre @ rest) (tot + length ch)"
    using cu hw by (simp add: fp2_def w2_def)
  from Cons.IH [of fp2 outs' w2 "tot + length ch"] co aa f2 obtain buf where
    s2: "spec_write env w2 fp2 (pre @ rest) (tot + length ch) =
           spec_write env (w2\<lparr>trace := trace w2 @ chunk_events pre outs'\<rparr>)
             (fp2\<lparr>ctx := cp, buffer := buf, rawfp := rp\<rparr>) rest
             (tot + length ch + length (concat pre))"
    by auto
  have a: "w2\<lparr>trace := trace w2 @ chunk_events pre outs'\<rparr> =
           w\<lparr>trace := trace w @ chunk_events (ch # pre) outs\<rparr>"
    by (simp add: w2_def o)
  have b: "fp2\<lparr>ctx := cp, buffer := buf, rawfp := rp\<rparr> = fp\<lparr>ctx := cp, buffer := buf, rawfp := rp\<rparr>"
    by (simp add: fp2_def)
  have c: "tot + length ch + length (concat pre) = tot + length (concat (ch # pre))"
    by simp
  show ?case unfolding s1 s2 a b c by blast
qed

lemma spec_write_success:
  assumes "spec_write env w fp chs tot = (w', fp', Some k)"
  shows "\<exists>outs. cipher_outputs env (ctx fp) chs = Some (ctx fp', outs) \<and>
                 accept_all env (rawfp fp) outs = Some (rawfp fp')"
  using assms
proof (induction chs arbitrary: w fp tot)
  case Nil
  then show ?case by simp
next
  case (Cons ch chs)
  obtain c1 st out where cu: "cipher_update_op env (ctx fp) ch = (c1, st, out)"
    by (cases "cipher_update_op env (ctx fp) ch") auto
  obtain r2 res where hw: "hwrite_op env (rawfp fp) out = (r2, res)"
    by (cases "hwrite_op env (rawfp fp) out") auto
  have st: "st = kCCSuccess"
    using Cons.prems cu by (cases "st = kCCSuccess") simp_all
  have res: "res = Inr (length out)"
    using Cons.prems cu st hw by (cases "res = Inr (length out)") simp_all
  define fp2 where "fp2 = fp\<lparr>ctx := c1, buffer := store out (buffer fp), rawfp := r2\<rparr>"
  have f2: "ctx fp2 = c1" "rawfp fp2 = r2" by (simp_all add: fp2_def)
  have "spec_write env (w\<lparr>trace := trace w @ [CipherUpdate ch, Hwrite out]\<rparr>) fp2 chs
          (tot + length ch) = (w', fp', Some k)"
    using Cons.prems cu st hw res by (simp add: fp2_def)
  from Cons.IH [OF this] obtain outs where
    o: "cipher_outputs env c1 chs = Some (ctx fp', outs)"
       "accept_all env r2 outs = Some (rawfp fp')"
    unfolding f2 by blast
  have "cipher_outputs env (ctx fp) (ch # chs) = Some (ctx fp', out # outs)"
    using cu st o(1) by simp
  moreover have "accept_all env (rawfp fp) (out # outs) = Some (rawfp fp')"
    using hw res o(2) by simp
  ultimately show ?case by blast
qed

text \<open>
  C8: a \<open>cip_write\<close> call that succeeds returns the number of bytes it was given. With
  a buffer size above zero and \<open>chs\<close> the chunks of the caller's data, every call
  returns, and it succeeds exactly when the cipher takes every chunk and the underlying
  stream accepts every output whole; the calls made are then, for each chunk in turn, the
  update of the cipher and one \<^verbatim>\<open>hwrite\<close> of its whole output, the handle is left with
  the cipher context and the stream these calls leave, and \<^verbatim>\<open>errno\<close> is untouched. When
  the chunks before \<open>ch\<close> went through and the write of the output of \<open>ch\<close> fails or is
  accepted in another number of bytes, the call returns \<open>-1\<close> and that write is the last
  call made: nothing is written again.
\<close>

theorem cip_write_full_chunks:
  "(cip_write env w fp data = Some (w', fp', Some k) \<longrightarrow> k = length data) \<and>
   (0 < bufsize fp \<and> chs = chunks (bufsize fp) data \<longrightarrow>
      cip_write env w fp data \<noteq> None \<and>
      ((\<exists>w1 fp1. cip_write env w fp data = Some (w1, fp1, Some k)) \<longleftrightarrow>
         k = length data \<and>
         (\<exists>c1 outs r1. cipher_outputs env (ctx fp) chs = Some (c1, outs) \<and>
                       accept_all env (rawfp fp) outs = Some r1)) \<and>
      (cip_write env w fp data = Some (w', fp', Some k) \<longrightarrow>
         (\<exists>outs. cipher_outputs env (ctx fp) chs = Some (ctx fp', outs) \<and>
                 accept_all env (rawfp fp) outs = Some (rawfp fp') \<and>
                 w' = w\<lparr>trace := trace w @ chunk_events chs outs\<rparr>)) \<and>
      (chs = pre @ ch # post \<and>
       cipher_outputs env (ctx fp) pre = Some (cp, outs) \<and>
       accept_all env (rawfp fp) outs = Some rp \<and>
       cipher_update_op env cp ch = (c2, kCCSuccess, out) \<and>
       hwrite_op env rp out = (r2, res) \<and> res \<noteq> Inr (length out) \<longrightarrow>
         (\<exists>buf. cip_write env w fp data =
            Some (w\<lparr>errno := (case res of Inl e \<Rightarrow> e | Inr n \<Rightarrow> errno w),
                    trace := trace w @ chunk_events pre outs @ [CipherUpdate ch, Hwrite out]\<rparr>,
                  fp\<lparr>ctx := c2, buffer := buf, rawfp := r2\<rparr>, None))))"
  (is "?A \<and> (?H \<longrightarrow> ?B)")
proof -
  have a: "cip_write env w fp data = Some (w', fp', Some k) \<longrightarrow> k = length data"
    using cip_write_loop_count [of env w fp data 0 "(w', fp', Some k)"]
    by (simp add: cip_write_def)
  have b: ?B
    if pos: "0 < bufsize fp" and chs: "chs = chunks (bufsize fp) data"
  proof -
    have ref: "cip_write env w fp data = Some (spec_write env w fp chs 0)"
      unfolding cip_write_def chs by (rule cip_write_loop_spec [OF pos])
    have cc: "length (concat chs) = length data"
      unfolding chs using concat_chunks [OF pos, of data] by simp
    have fwd: "\<exists>outs. cipher_outputs env (ctx fp) chs = Some (ctx fp1, outs) \<and>
                 accept_all env (rawfp fp) outs = Some (rawfp fp1) \<and>
                 w1 = w\<lparr>trace := trace w @ chunk_events chs outs\<rparr> \<and> k1 = length data"
      if s: "spec_write env w fp chs 0 = (w1, fp1, Some k1)" for w1 fp1 k1
    proof -
      from spec_write_success [OF s] obtain outs where
        o: "cipher_outputs env (ctx fp) chs = Some (ctx fp1, outs)"
           "accept_all env (rawfp fp) outs = Some (rawfp fp1)"
        by blast
      from spec_write_prefix [OF o, of w "[]" 0] obtain buf where
        "spec_write env w fp chs 0 =
           (w\<lparr>trace := trace w @ chunk_events chs outs\<rparr>,
            fp\<lparr>ctx := ctx fp1, buffer := buf, rawfp := rawfp fp1\<rparr>, Some (length (concat chs)))"
        by auto
      with s cc have "w1 = w\<lparr>trace := trace w @ chunk_events chs outs\<rparr>" "k1 = length data"
        by simp_all
      with o show ?thesis by blast
    qed
    have bwd: "\<exists>w1 fp1. spec_write env w fp chs 0 = (w1, fp1, Some (length data))"
      if o: "cipher_outputs env (ctx fp) chs = Some (c1, outs1)"
            "accept_all env (rawfp fp) outs1 = Some r1" for c1 outs1 r1
    proof -
      from spec_write_prefix [OF o, of w "[]" 0] obtain buf where
        "spec_write env w fp chs 0 =
           (w\<lparr>trace := trace w @ chunk_events chs outs1\<rparr>,
            fp\<lparr>ctx := c1, buffer := buf, rawfp := r1\<rparr>, Some (length (concat chs)))"
        by auto
      then show ?thesis unfolding cc by blast
    qed
    have p1: "cip_write env w fp data \<noteq> None" unfolding ref by simp
    have p2: "(\<exists>w1 fp1. cip_write env w fp data = Some (w1, fp1, Some k)) \<longleftrightarrow>
         k = length data \<and>
         (\<exists>c1 outs r1. cipher_outputs env (ctx fp) chs = Some (c1, outs) \<and>
                       accept_all env (rawfp fp) outs = Some r1)"
      unfolding ref using fwd bwd by (metis option.inject)
    have p3: "cip_write env w fp data = Some (w', fp', Some k) \<longrightarrow>
         (\<exists>outs. cipher_outputs env (ctx fp) chs = Some (ctx fp', outs) \<and>
                 accept_all env (rawfp fp) outs = Some (rawfp fp') \<and>
                 w' = w\<lparr>trace := trace w @ chunk_events chs outs\<rparr>)"
      unfolding ref using fwd [of w' fp' k] by auto
    have p4: "\<exists>buf. cip_write env w fp data =
            Some (w\<lparr>errno := (case res of Inl e \<Rightarrow> e | Inr n \<Rightarrow> errno w),
                    trace := trace w @ chunk_events pre outs @ [CipherUpdate ch, Hwrite out]\<rparr>,
                  fp\<lparr>ctx := c2, buffer := buf, rawfp := r2\<rparr>, None)"
      if sp: "chs = pre @ ch # post"
        and o: "cipher_outputs env (ctx fp) pre = Some (cp, outs)"
               "accept_all env (rawfp fp) outs = Some rp"
        and cu: "cipher_update_op env cp ch = (c2, kCCSuccess, out)"
        and hw: "hwrite_op env rp out = (r2, res)" and sh: "res \<noteq> Inr (length out)"
    proof -
      from spec_write_prefix [OF o, of w "ch # post" 0] obtain buf where
        "spec_write env w fp chs 0 =
           spec_write env (w\<lparr>trace := trace w @ chunk_events pre outs\<rparr>)
             (fp\<lparr>ctx := cp, buffer := buf, rawfp := rp\<rparr>) (ch # post)
             (0 + length (concat pre))"
        unfolding sp by blast
      also have "\<dots> =
            (w\<lparr>errno := (case res of Inl e \<Rightarrow> e | Inr n \<Rightarrow> errno w),
               trace := trace w @ chunk_events pre outs @ [CipherUpdate ch, Hwrite out]\<rparr>,
             fp\<lparr>ctx := c2, buffer := store out buf, rawfp := r2\<rparr>, None)"
        using cu hw sh by (cases res) simp_all
      finally show ?thesis unfolding ref by blast
    qed
    from p1 p2 p3 p4 show ?thesis by blast
  qed
  show ?thesis
  proof (rule conjI [OF a], rule impI)
    assume h: ?H
    show ?B by (rule b [OF conjunct1 [OF h] conjunct2 [OF h]])
  qed
qed

lemma chunks_demo: "chunks 4 [1, 2, 3, 4, 5, 6 :: byte] = [[1, 2, 3, 4], [5, 6]]"
  by (simp add: chunks_Cons)

theorem cip_write_full_chunks_witness:
  "(\<exists>w1 fp1. cip_write (mem_env demo_ks demo_kdf demo_rnd (Some ''secret'') []) w0
       (demo_fp True) [1, 2, 3, 4, 5, 6] = Some (w1, fp1, Some 6)) \<and>
   (\<exists>buf. cip_write short_write_env w0 (demo_fp True) [1, 2, 3, 4, 5, 6] =
      Some (\<lparr>errno = 0,
              trace = [CipherUpdate [1, 2, 3, 4], Hwrite [1, 5, 13, 17],
                       CipherUpdate [5, 6], Hwrite [25, 37]]\<rparr>,
            \<lparr>is_write = True, buffer = buf, bufsize = 4,
             rawfp = \<lparr>content = [1, 5, 13, 17, 25], pos = 0\<rparr>,
             ctx = \<lparr>ctr_key = [], ctr_iv = [], ctr_pos = 6\<rparr>\<rparr>, None))"
proof -
  have a: "\<exists>w1 fp1. cip_write (mem_env demo_ks demo_kdf demo_rnd (Some ''secret'') []) w0
       (demo_fp True) [1, 2, 3, 4, 5, 6] = Some (w1, fp1, Some 6)"
    using cip_write_full_chunks
      [where env = "mem_env demo_ks demo_kdf demo_rnd (Some ''secret'') []" and w = w0
         and fp = "demo_fp True" and data = "[1, 2, 3, 4, 5, 6]" and k = 6
         and chs = "[[1, 2, 3, 4], [5, 6]]"]
    by (simp add: chunks_demo demo_fp_def mem_env_def demo_ks_simp)
  have b: "\<exists>buf. cip_write short_write_env w0 (demo_fp True) [1, 2, 3, 4, 5, 6] =
      Some (\<lparr>errno = 0,
              trace = [CipherUpdate [1, 2, 3, 4], Hwrite [1, 5, 13, 17],
                       CipherUpdate [5, 6], Hwrite [25, 37]]\<rparr>,
            \<lparr>is_write = True, buffer = buf, bufsize = 4,
             rawfp = \<lparr>content = [1, 5, 13, 17, 25], pos = 0\<rparr>,
             ctx = \<lparr>ctr_key = [], ctr_iv = [], ctr_pos = 6\<rparr>\<rparr>, None)"
    using cip_write_full_chunks
      [where env = short_write_env and w = w0 and fp = "demo_fp True"
         and data = "[1, 2, 3, 4, 5, 6]" and chs = "[[1, 2, 3, 4], [5, 6]]"
         and pre = "[[1, 2, 3, 4]]" and ch = "[5, 6]" and post = "[]"
         and cp = "\<lparr>ctr_key = [], ctr_iv = [], ctr_pos = 4\<rparr>"
         and outs = "[[1, 5, 13, 17]]"
         and rp = "\<lparr>content = [1, 5, 13, 17], pos = 0\<rparr>"
         and ?c2.0 = "\<lparr>ctr_key = [], ctr_iv = [], ctr_pos = 6\<rparr>"
         and out = "[25, 37]"
         and ?r2.0 = "\<lparr>content = [1, 5, 13, 17, 25], pos = 0\<rparr>" and res = "Inr 1"]
    by (simp add: chunks_demo demo_fp_def short_write_env_def mem_env_def demo_ks_simp w0_def)
  from a b show ?thesis by (rule conjI)
qed

subsection \<open>Round trip through the memory environment\<close>

lemma length_ctr_xor [simp]: "length (ctr_xor f p bs) = length bs"
  by (induction bs arbitrary: p) simp_all

lemma ctr_xor_append: "ctr_xor f p (a @ b) = ctr_xor f p a @ ctr_xor f (p + length a) b"
  by (induction a arbitrary: p) simp_all

lemma ctr_xor_involution: "ctr_xor f p (ctr_xor f p bs) = bs"
  by (induction bs arbitrary: p) (simp_all add: xor.assoc)

lemma ctr_xor_take_drop:
  "ctr_xor f p (take n bs) @ ctr_xor f (p + length (take n bs)) (drop n bs) = ctr_xor f p bs"
  using ctr_xor_append [of f p "take n bs" "drop n bs"] by simp

lemma take_chunked:
  "n \<le> m \<Longrightarrow>
     take n xs @ take (m - length (take n xs)) (drop (length (take n xs)) xs) = take m xs"
proof (cases "n \<le> length xs")
  case True
  assume "n \<le> m"
  then have "take m xs = take (n + (m - n)) xs" by simp
  also have "\<dots> = take n xs @ take (m - n) (drop n xs)" by (rule take_add)
  finally show ?thesis using True by simp
next
  case False
  assume "n \<le> m"
  with False show ?thesis by simp
qed

lemma mem_cipher_update:
  "cipher_update (mem_env ks kdf rnd secret disk) w c inp =
     (log (CipherUpdate inp) w, c\<lparr>ctr_pos := ctr_pos c + length inp\<rparr>,
      Some (ctr_xor (ks (ctr_key c) (ctr_iv c)) (ctr_pos c) inp))"
  by (simp add: cipher_update_def mem_env_def)

lemma mem_hwrite:
  "hwrite (mem_env ks kdf rnd secret disk) w r bs =
     (log (Hwrite bs) w, r\<lparr>content := content r @ bs\<rparr>, Some (length bs))"
  by (simp add: hwrite_def mem_env_def)

lemma mem_hread:
  "hread (mem_env ks kdf rnd secret disk) w r n =
     (log (Hread n) w, r\<lparr>pos := pos r + length (take n (drop (pos r) (content r)))\<rparr>,
      Some (take n (drop (pos r) (content r))))"
  by (simp add: hread_def mem_env_def)

lemma mem_cip_write_loop:
  assumes "0 < bufsize fp"
  shows "\<exists>w' fp'.
           cip_write_loop (mem_env ks kdf rnd secret disk) w fp data tot =
             Some (w', fp', Some (tot + length data)) \<and>
           rawfp fp' = (rawfp fp)\<lparr>content := content (rawfp fp) @
             ctr_xor (ks (ctr_key (ctx fp)) (ctr_iv (ctx fp))) (ctr_pos (ctx fp)) data\<rparr> \<and>
           ctx fp' = (ctx fp)\<lparr>ctr_pos := ctr_pos (ctx fp) + length data\<rparr> \<and>
           is_write fp' = is_write fp \<and> bufsize fp' = bufsize fp \<and> errno w' = errno w"
  using assms
proof (induction "length data" arbitrary: w fp data tot rule: less_induct)
  case less
  let ?env = "mem_env ks kdf rnd secret disk"
  show ?case
  proof (cases "0 < length data")
    case False
    then show ?thesis by (subst cip_write_loop.simps) simp
  next
    case True
    define n where "n = (if length data < bufsize fp then length data else bufsize fp)"
    have npos: "0 < n" and nle: "n \<le> length data"
      using True less.prems by (simp_all add: n_def)
    define out where
      "out = ctr_xor (ks (ctr_key (ctx fp)) (ctr_iv (ctx fp))) (ctr_pos (ctx fp)) (take n data)"
    define fp2 where
      "fp2 = fp\<lparr>ctx := (ctx fp)\<lparr>ctr_pos := ctr_pos (ctx fp) + length (take n data)\<rparr>,
                buffer := store out (buffer fp),
                rawfp := (rawfp fp)\<lparr>content := content (rawfp fp) @ out\<rparr>\<rparr>"
    define w2 where "w2 = log (Hwrite out) (log (CipherUpdate (take n data)) w)"
    have step: "cip_write_loop ?env w fp data tot =
                  cip_write_loop ?env w2 fp2 (drop n data) (tot + n)"
      using True
      by (subst cip_write_loop.simps)
         (simp add: n_def [symmetric] mem_cipher_update mem_hwrite out_def [symmetric]
            fp2_def w2_def)
    have "length (drop n data) < length data" using True npos by simp
    moreover have "0 < bufsize fp2" using less.prems by (simp add: fp2_def)
    ultimately obtain w' fp' where
      r: "cip_write_loop ?env w2 fp2 (drop n data) (tot + n) =
            Some (w', fp', Some (tot + n + length (drop n data)))"
      and f: "rawfp fp' = (rawfp fp2)\<lparr>content := content (rawfp fp2) @
             ctr_xor (ks (ctr_key (ctx fp2)) (ctr_iv (ctx fp2))) (ctr_pos (ctx fp2))
               (drop n data)\<rparr>"
        "ctx fp' = (ctx fp2)\<lparr>ctr_pos := ctr_pos (ctx fp2) + length (drop n data)\<rparr>"
        "is_write fp' = is_write fp2" "bufsize fp' = bufsize fp2" "errno w' = errno w2"
      using less.hyps [of "drop n data" fp2 w2 "tot + n"] by blast
    have cat: "out @ ctr_xor (ks (ctr_key (ctx fp)) (ctr_iv (ctx fp)))
                 (ctr_pos (ctx fp) + length (take n data)) (drop n data) =
               ctr_xor (ks (ctr_key (ctx fp)) (ctr_iv (ctx fp))) (ctr_pos (ctx fp)) data"
      unfolding out_def by (rule ctr_xor_take_drop)
    have len: "tot + n + length (drop n data) = tot + length data" using nle by simp
    have l2: "length (take n data) + length (drop n data) = length data" by simp
    show ?thesis
      apply (rule exI [of _ w'], rule exI [of _ fp'])
      unfolding step r len
      using f cat l2
      by (simp add: fp2_def w2_def log_def add.assoc)
  qed
qed

lemma mem_cip_read_loop:
  assumes "0 < bufsize fp" and "nbytes < 2 ^ 64"
  shows "\<exists>w' fp'.
           cip_read_loop (mem_env ks kdf rnd secret disk) w fp nbytes tot =
             Some (w', fp',
                   Some (tot @ ctr_xor (ks (ctr_key (ctx fp)) (ctr_iv (ctx fp))) (ctr_pos (ctx fp))
                           (take nbytes (drop (pos (rawfp fp)) (content (rawfp fp)))))) \<and>
           rawfp fp' = (rawfp fp)\<lparr>pos := pos (rawfp fp) +
             length (take nbytes (drop (pos (rawfp fp)) (content (rawfp fp))))\<rparr> \<and>
           ctx fp' = (ctx fp)\<lparr>ctr_pos := ctr_pos (ctx fp) +
             length (take nbytes (drop (pos (rawfp fp)) (content (rawfp fp))))\<rparr> \<and>
           is_write fp' = is_write fp \<and> bufsize fp' = bufsize fp \<and> errno w' = errno w"
  using assms
proof (induction nbytes arbitrary: w fp tot rule: less_induct)
  case (less nbytes)
  let ?env = "mem_env ks kdf rnd secret disk"
  let ?F = "ks (ctr_key (ctx fp)) (ctr_iv (ctx fp))"
  let ?xs = "drop (pos (rawfp fp)) (content (rawfp fp))"
  show ?case
  proof (cases "0 < nbytes")
    case False
    then show ?thesis by (subst cip_read_loop.simps) simp
  next
    case True
    define n where "n = (if nbytes < bufsize fp then nbytes else bufsize fp)"
    have npos: "0 < n" and nle: "n \<le> nbytes"
      using True less.prems by (simp_all add: n_def)
    define raw where "raw = take n ?xs"
    show ?thesis
    proof (cases "raw = []")
      case True
      then have "?xs = []" using npos by (simp add: raw_def)
      then have e: "take nbytes ?xs = []" by simp
      have hr: "hread ?env w (rawfp fp) n = (log (Hread n) w, rawfp fp, Some [])"
        unfolding mem_hread using \<open>?xs = []\<close> by simp
      have "cip_read_loop ?env w fp nbytes tot = Some (log (Hread n) w, fp, Some tot)"
        using \<open>0 < nbytes\<close>
        by (subst cip_read_loop.simps) (simp add: n_def [symmetric] hr)
      then show ?thesis unfolding e by (simp add: log_def)
    next
      case False
      define len where "len = length raw"
      have lenpos: "0 < len" using False by (simp add: len_def)
      have lenle: "len \<le> nbytes" using nle by (simp add: len_def raw_def)
      define out where "out = ctr_xor ?F (ctr_pos (ctx fp)) raw"
      define fp2 where
        "fp2 = fp\<lparr>rawfp := (rawfp fp)\<lparr>pos := pos (rawfp fp) + len\<rparr>,
                  buffer := store raw (buffer fp),
                  ctx := (ctx fp)\<lparr>ctr_pos := ctr_pos (ctx fp) + len\<rparr>\<rparr>"
      define w2 where "w2 = log (CipherUpdate raw) (log (Hread n) w)"
      have sub: "size_sub nbytes (length out) = nbytes - len"
        using size_sub_le [OF lenle less.prems(2)] by (simp add: out_def len_def)
      have hr: "hread ?env w (rawfp fp) n =
                  (log (Hread n) w, (rawfp fp)\<lparr>pos := pos (rawfp fp) + len\<rparr>, Some raw)"
        by (simp add: mem_hread raw_def len_def)
      have cu: "cipher_update ?env (log (Hread n) w) (ctx fp) raw =
                  (w2, (ctx fp)\<lparr>ctr_pos := ctr_pos (ctx fp) + len\<rparr>, Some out)"
        by (simp add: mem_cipher_update out_def len_def w2_def)
      have step: "cip_read_loop ?env w fp nbytes tot =
                    cip_read_loop ?env w2 fp2 (nbytes - len) (tot @ out)"
        using True False
        by (subst cip_read_loop.simps) (simp add: n_def [symmetric] hr cu sub fp2_def)
      have "nbytes - len < nbytes" using True lenpos by simp
      moreover have "0 < bufsize fp2" using less.prems by (simp add: fp2_def)
      moreover have "nbytes - len < 2 ^ 64" using less.prems(2) by simp
      ultimately obtain w' fp' where
        r: "cip_read_loop ?env w2 fp2 (nbytes - len) (tot @ out) =
              Some (w', fp',
                Some ((tot @ out) @ ctr_xor (ks (ctr_key (ctx fp2)) (ctr_iv (ctx fp2)))
                   (ctr_pos (ctx fp2))
                   (take (nbytes - len) (drop (pos (rawfp fp2)) (content (rawfp fp2))))))"
        and f: "rawfp fp' = (rawfp fp2)\<lparr>pos := pos (rawfp fp2) +
             length (take (nbytes - len) (drop (pos (rawfp fp2)) (content (rawfp fp2))))\<rparr>"
          "ctx fp' = (ctx fp2)\<lparr>ctr_pos := ctr_pos (ctx fp2) +
             length (take (nbytes - len) (drop (pos (rawfp fp2)) (content (rawfp fp2))))\<rparr>"
          "is_write fp' = is_write fp2" "bufsize fp' = bufsize fp2" "errno w' = errno w2"
        using less.IH [of "nbytes - len" fp2 w2 "tot @ out"] by blast
      have dd: "drop (pos (rawfp fp2)) (content (rawfp fp2)) = drop len ?xs"
        by (simp add: fp2_def add.commute)
      have tk: "raw @ take (nbytes - len) (drop len ?xs) = take nbytes ?xs"
        unfolding raw_def len_def using take_chunked [OF nle, of ?xs] by (simp add: raw_def)
      define rest where "rest = take (nbytes - len) (drop len ?xs)"
      have tk': "take nbytes ?xs = raw @ rest" using tk by (simp add: rest_def)
      have k2: "ctr_key (ctx fp2) = ctr_key (ctx fp)" "ctr_iv (ctx fp2) = ctr_iv (ctx fp)"
        "ctr_pos (ctx fp2) = ctr_pos (ctx fp) + len"
        "pos (rawfp fp2) = pos (rawfp fp) + len"
        by (simp_all add: fp2_def)
      have k3: "rawfp fp2 = (rawfp fp)\<lparr>pos := pos (rawfp fp) + len\<rparr>"
        "ctx fp2 = (ctx fp)\<lparr>ctr_pos := ctr_pos (ctx fp) + len\<rparr>"
        "is_write fp2 = is_write fp" "bufsize fp2 = bufsize fp" "errno w2 = errno w"
        by (simp_all add: fp2_def w2_def log_def)
      note r' = r [unfolded dd, unfolded k2, folded rest_def]
      note f' = f [unfolded dd, unfolded k2, folded rest_def]
      have cat: "(tot @ out) @ ctr_xor ?F (ctr_pos (ctx fp) + len) rest =
                 tot @ ctr_xor ?F (ctr_pos (ctx fp)) (raw @ rest)"
        by (simp add: out_def len_def ctr_xor_append)
      have a: "cip_read_loop ?env w fp nbytes tot =
                 Some (w', fp', Some (tot @ ctr_xor ?F (ctr_pos (ctx fp)) (take nbytes ?xs)))"
        unfolding step r' cat tk' ..
      have b: "rawfp fp' = (rawfp fp)\<lparr>pos := pos (rawfp fp) + length (take nbytes ?xs)\<rparr>"
        unfolding f'(1) k3 tk' by (simp add: len_def add.assoc)
      have c: "ctx fp' = (ctx fp)\<lparr>ctr_pos := ctr_pos (ctx fp) + length (take nbytes ?xs)\<rparr>"
        unfolding f'(2) k3 tk' by (simp add: len_def add.assoc)
      have d: "is_write fp' = is_write fp" "bufsize fp' = bufsize fp" "errno w' = errno w"
        using f'(3-5) k3 by simp_all
      show ?thesis using a b c d by blast
    qed
  qed
qed

lemma take_drop_length_take: "take n xs @ drop (length (take n xs)) xs = xs"
proof (cases "n \<le> length xs")
  case True
  then have "length (take n xs) = n" by simp
  then show ?thesis by simp
next
  case False
  then show ?thesis by simp
qed

lemma mem_read_to_eof:
  assumes "0 < bufsize fp" and "0 < n" and "n < 2 ^ 64"
  shows "\<exists>w' fp'.
           read_to_eof (mem_env ks kdf rnd secret disk) w fp n acc =
             Some (w', fp',
                   Some (acc @ ctr_xor (ks (ctr_key (ctx fp)) (ctr_iv (ctx fp))) (ctr_pos (ctx fp))
                           (drop (pos (rawfp fp)) (content (rawfp fp)))))"
  using assms
proof (induction "length (content (rawfp fp)) - pos (rawfp fp)" arbitrary: w fp acc
         rule: less_induct)
  case less
  let ?env = "mem_env ks kdf rnd secret disk"
  let ?F = "ks (ctr_key (ctx fp)) (ctr_iv (ctx fp))"
  let ?xs = "drop (pos (rawfp fp)) (content (rawfp fp))"
  define raw where "raw = take n ?xs"
  define len where "len = length raw"
  define bs where "bs = ctr_xor ?F (ctr_pos (ctx fp)) raw"
  obtain w1 fp1 where
    rd: "cip_read ?env w fp n = Some (w1, fp1, Some bs)"
    and f1: "rawfp fp1 = (rawfp fp)\<lparr>pos := pos (rawfp fp) + len\<rparr>"
      "ctx fp1 = (ctx fp)\<lparr>ctr_pos := ctr_pos (ctx fp) + len\<rparr>"
      "bufsize fp1 = bufsize fp"
    using mem_cip_read_loop [OF less.prems(1) less.prems(3), of ks kdf rnd secret disk w "[]"]
    unfolding cip_read_def raw_def [symmetric] len_def [symmetric]
    by (auto simp add: bs_def)
  show ?case
  proof (cases "raw = []")
    case True
    then have "?xs = []" using less.prems(2) by (simp add: raw_def)
    then have e: "ctr_xor ?F (ctr_pos (ctx fp)) ?xs = []" by simp
    have "bs = []" using True by (simp add: bs_def)
    then have "read_to_eof ?env w fp n acc = Some (w1, fp1, Some acc)"
      using rd by (subst read_to_eof.simps) simp
    then show ?thesis unfolding e by simp
  next
    case False
    then have lenpos: "0 < len" by (simp add: len_def)
    have "bs \<noteq> []" using False length_ctr_xor [of ?F "ctr_pos (ctx fp)" raw]
      unfolding bs_def [symmetric] by auto
    then have step: "read_to_eof ?env w fp n acc = read_to_eof ?env w1 fp1 n (acc @ bs)"
      using rd by (subst read_to_eof.simps) simp
    have nonempty: "pos (rawfp fp) < length (content (rawfp fp))"
      using False by (auto simp add: raw_def)
    have k: "pos (rawfp fp1) = pos (rawfp fp) + len" "content (rawfp fp1) = content (rawfp fp)"
      "ctr_key (ctx fp1) = ctr_key (ctx fp)" "ctr_iv (ctx fp1) = ctr_iv (ctx fp)"
      "ctr_pos (ctx fp1) = ctr_pos (ctx fp) + len"
      by (simp_all add: f1)
    have "length (content (rawfp fp1)) - pos (rawfp fp1) <
            length (content (rawfp fp)) - pos (rawfp fp)"
      unfolding k using nonempty lenpos by arith
    moreover have "0 < bufsize fp1" using less.prems(1) f1(3) by simp
    ultimately obtain w' fp' where
      r: "read_to_eof ?env w1 fp1 n (acc @ bs) =
            Some (w', fp',
              Some ((acc @ bs) @ ctr_xor (ks (ctr_key (ctx fp1)) (ctr_iv (ctx fp1)))
                 (ctr_pos (ctx fp1)) (drop (pos (rawfp fp1)) (content (rawfp fp1)))))"
      using less.hyps [of fp1 w1 "acc @ bs"] less.prems(2,3) by blast
    have dd: "drop (pos (rawfp fp) + len) (content (rawfp fp)) = drop len ?xs"
      by (simp add: add.commute)
    have xs: "raw @ drop len ?xs = ?xs"
      unfolding raw_def len_def by (rule take_drop_length_take)
    have cat: "(acc @ bs) @ ctr_xor ?F (ctr_pos (ctx fp) + len) (drop len ?xs) =
               acc @ ctr_xor ?F (ctr_pos (ctx fp)) (raw @ drop len ?xs)"
      by (simp add: bs_def len_def ctr_xor_append)
    show ?thesis
      unfolding step r k dd cat xs by blast
  qed
qed

lemma mem_oflags_w: "mem_oflags ''w'' 0 0 AND O_ACCMODE = O_WRONLY"
  by (simp add: oflag_defs)

lemma mem_oflags_r: "mem_oflags ''r'' 0 0 AND O_ACCMODE = O_RDONLY"
  by (simp add: oflag_defs)

lemma mem_hopen_cip_write:
  "\<exists>w' buf.
     hopen_cip (mem_env ks kdf rnd (Some secret) disk) w filename ''w'' =
       (w', Some \<lparr>is_write = True, buffer = buf, bufsize = 131072,
                  rawfp = \<lparr>content = map rnd [0..<16], pos = 0\<rparr>,
                  ctx = \<lparr>ctr_key = kdf secret, ctr_iv = map rnd [0..<16], ctr_pos = 0\<rparr>\<rparr>)"
proof -
  let ?env = "mem_env ks kdf rnd (Some secret) disk"
  have fl: "hfile_oflags_op ?env ''w'' AND O_ACCMODE = O_WRONLY"
    using mem_oflags_w by (simp add: mem_env_def)
  have gr: "gen_random ?env w1 16 = (log (GenRandom 16) w1, Some (map rnd [0..<16]))" for w1
    by (simp add: gen_random_def mem_env_def)
  have len: "length (map rnd [0..<16]) = 16" by simp
  show ?thesis
    unfolding hopen_cip_def fl
    by (simp add: getenv_def hfile_init_def hopen_def malloc_def gr mem_hwrite len
          hopen_cip_cipher_def oflag_defs BLOCKSIZE_def del: upt_rec_numeral map_upt_Suc)
       (simp add: mem_env_def)
qed

lemma mem_hopen_cip_read:
  assumes "length iv = 16"
  shows "\<exists>w' buf.
     hopen_cip (mem_env ks kdf rnd (Some secret) (iv @ ct)) w filename ''r'' =
       (w', Some \<lparr>is_write = False, buffer = buf, bufsize = 131072,
                  rawfp = \<lparr>content = iv @ ct, pos = 16\<rparr>,
                  ctx = \<lparr>ctr_key = kdf secret, ctr_iv = iv, ctr_pos = 0\<rparr>\<rparr>)"
proof -
  let ?env = "mem_env ks kdf rnd (Some secret) (iv @ ct)"
  have fl: "hfile_oflags_op ?env ''r'' AND O_ACCMODE = O_RDONLY"
    using mem_oflags_r by (simp add: mem_env_def)
  have op: "hopen ?env w1 f ''r'' =
              (log (Hopen f ''r'') w1, Some \<lparr>content = iv @ ct, pos = 0\<rparr>)" for w1 f
    by (simp add: hopen_def mem_env_def)
  have hr: "hread ?env w1 \<lparr>content = iv @ ct, pos = 0\<rparr> 16 =
              (log (Hread 16) w1, \<lparr>content = iv @ ct, pos = 16\<rparr>, Some iv)" for w1
    using assms by (simp add: mem_hread)
  show ?thesis
    unfolding hopen_cip_def fl
    by (simp add: getenv_def hfile_init_def op malloc_def hr assms
          hopen_cip_cipher_def oflag_defs BLOCKSIZE_def)
       (simp add: mem_env_def)
qed

lemma mem_cip_write_all:
  assumes "0 < bufsize fp"
  shows "\<exists>w' fp'.
           cip_write_all (mem_env ks kdf rnd secret disk) w fp bufs = Some (w', fp') \<and>
           rawfp fp' = (rawfp fp)\<lparr>content := content (rawfp fp) @
             ctr_xor (ks (ctr_key (ctx fp)) (ctr_iv (ctx fp))) (ctr_pos (ctx fp))
               (concat bufs)\<rparr> \<and>
           ctx fp' = (ctx fp)\<lparr>ctr_pos := ctr_pos (ctx fp) + length (concat bufs)\<rparr> \<and>
           is_write fp' = is_write fp \<and> bufsize fp' = bufsize fp"
  using assms
proof (induction bufs arbitrary: w fp)
  case Nil
  then show ?case by simp
next
  case (Cons data bufs)
  let ?env = "mem_env ks kdf rnd secret disk"
  let ?F = "ks (ctr_key (ctx fp)) (ctr_iv (ctx fp))"
  obtain w1 fp1 where
    wr: "cip_write ?env w fp data = Some (w1, fp1, Some (length data))"
    and f1: "rawfp fp1 = (rawfp fp)\<lparr>content := content (rawfp fp) @
               ctr_xor ?F (ctr_pos (ctx fp)) data\<rparr>"
      "ctx fp1 = (ctx fp)\<lparr>ctr_pos := ctr_pos (ctx fp) + length data\<rparr>"
      "is_write fp1 = is_write fp" "bufsize fp1 = bufsize fp"
    using mem_cip_write_loop [OF Cons.prems, of ks kdf rnd secret disk w data 0]
    unfolding cip_write_def by auto
  have "0 < bufsize fp1" using Cons.prems f1(4) by simp
  from Cons.IH [OF this, of w1] obtain w' fp' where
    r: "cip_write_all ?env w1 fp1 bufs = Some (w', fp')"
    and f: "rawfp fp' = (rawfp fp1)\<lparr>content := content (rawfp fp1) @
             ctr_xor (ks (ctr_key (ctx fp1)) (ctr_iv (ctx fp1))) (ctr_pos (ctx fp1))
               (concat bufs)\<rparr>"
      "ctx fp' = (ctx fp1)\<lparr>ctr_pos := ctr_pos (ctx fp1) + length (concat bufs)\<rparr>"
      "is_write fp' = is_write fp1" "bufsize fp' = bufsize fp1"
    by blast
  have a: "cip_write_all ?env w fp (data # bufs) = Some (w', fp')"
    using wr r by simp
  have b: "rawfp fp' = (rawfp fp)\<lparr>content := content (rawfp fp) @
             ctr_xor ?F (ctr_pos (ctx fp)) (concat (data # bufs))\<rparr>"
    unfolding f(1) by (simp add: f1 ctr_xor_append)
  have c: "ctx fp' = (ctx fp)\<lparr>ctr_pos := ctr_pos (ctx fp) + length (concat (data # bufs))\<rparr>"
    unfolding f(2) by (simp add: f1 add.assoc)
  show ?case using a b c f(3,4) f1(3,4) by simp
qed

lemma mem_cip_close:
  "\<exists>w' fp'. cip_close (mem_env ks kdf rnd secret disk) w fp = (w', fp', 0) \<and>
             rawfp fp' = rawfp fp"
  by (simp add: cip_close_def cip_close_final_def cip_close_release_def cipher_final_def
        hclose_def mem_env_def Let_def)

lemma mem_write_session:
  "\<exists>w'. write_session (mem_env ks kdf rnd (Some secret) disk) w filename bufs =
          Some (w', \<lparr>content = map rnd [0..<16] @
                        ctr_xor (ks (kdf secret) (map rnd [0..<16])) 0 (concat bufs),
                      pos = 0\<rparr>)"
proof -
  let ?env = "mem_env ks kdf rnd (Some secret) disk"
  obtain w1 buf where
    op: "hopen_cip ?env w filename ''w'' =
       (w1, Some \<lparr>is_write = True, buffer = buf, bufsize = 131072,
                  rawfp = \<lparr>content = map rnd [0..<16], pos = 0\<rparr>,
                  ctx = \<lparr>ctr_key = kdf secret, ctr_iv = map rnd [0..<16], ctr_pos = 0\<rparr>\<rparr>)"
    using mem_hopen_cip_write [of ks kdf rnd secret disk w filename] by blast
  define fp1 :: "(mem_file, ctr_ctx) hFILE_cip" where
    "fp1 = \<lparr>is_write = True, buffer = buf, bufsize = 131072,
             rawfp = \<lparr>content = map rnd [0..<16], pos = 0\<rparr>,
             ctx = \<lparr>ctr_key = kdf secret, ctr_iv = map rnd [0..<16], ctr_pos = 0\<rparr>\<rparr>"
  have "0 < bufsize fp1" by (simp add: fp1_def)
  from mem_cip_write_all [OF this, of ks kdf rnd "Some secret" disk w1 bufs]
  obtain w2 fp2 where
    wa: "cip_write_all ?env w1 fp1 bufs = Some (w2, fp2)"
    and f2: "rawfp fp2 = \<lparr>content = map rnd [0..<16] @
               ctr_xor (ks (kdf secret) (map rnd [0..<16])) 0 (concat bufs), pos = 0\<rparr>"
    by (auto simp add: fp1_def simp del: upt_rec_numeral map_upt_Suc)
  obtain w3 fp3 where
    cl: "cip_close ?env w2 fp2 = (w3, fp3, 0)" and f3: "rawfp fp3 = rawfp fp2"
    using mem_cip_close [of ks kdf rnd "Some secret" disk w2 fp2] by blast
  have "write_session ?env w filename bufs = Some (w3, rawfp fp3)"
    unfolding write_session_def op fp1_def [symmetric] by (simp add: wa cl)
  then show ?thesis unfolding f3 f2 by blast
qed

lemma mem_read_session:
  assumes "length iv = 16" and "0 < n" and "n < 2 ^ 64"
  shows "read_session (mem_env ks kdf rnd (Some secret) (iv @ ct)) w filename n =
           Some (ctr_xor (ks (kdf secret) iv) 0 ct)"
proof -
  let ?env = "mem_env ks kdf rnd (Some secret) (iv @ ct)"
  obtain w1 buf where
    op: "hopen_cip ?env w filename ''r'' =
       (w1, Some \<lparr>is_write = False, buffer = buf, bufsize = 131072,
                  rawfp = \<lparr>content = iv @ ct, pos = 16\<rparr>,
                  ctx = \<lparr>ctr_key = kdf secret, ctr_iv = iv, ctr_pos = 0\<rparr>\<rparr>)"
    using mem_hopen_cip_read [OF assms(1), of ks kdf rnd secret ct w filename] by blast
  define fp1 :: "(mem_file, ctr_ctx) hFILE_cip" where
    "fp1 = \<lparr>is_write = False, buffer = buf, bufsize = 131072,
             rawfp = \<lparr>content = iv @ ct, pos = 16\<rparr>,
             ctx = \<lparr>ctr_key = kdf secret, ctr_iv = iv, ctr_pos = 0\<rparr>\<rparr>"
  have b: "0 < bufsize fp1" by (simp add: fp1_def)
  have d: "drop (pos (rawfp fp1)) (content (rawfp fp1)) = ct"
    using assms(1) by (simp add: fp1_def)
  have k: "ctr_key (ctx fp1) = kdf secret" "ctr_iv (ctx fp1) = iv" "ctr_pos (ctx fp1) = 0"
    by (simp_all add: fp1_def)
  from mem_read_to_eof [OF b assms(2,3), of ks kdf rnd "Some secret" "iv @ ct" w1 "[]"]
  obtain w2 fp2 where
    "read_to_eof ?env w1 fp1 n [] = Some (w2, fp2, Some (ctr_xor (ks (kdf secret) iv) 0 ct))"
    unfolding d k by auto
  then show ?thesis
    unfolding read_session_def op fp1_def [symmetric] by simp
qed

text \<open>
  C2: in the memory environment, with any keystream, key derivation, passphrase and random
  bytes, a write session that writes the buffers \<open>bufs\<close> (one buffer \<open>P\<close> in the claim)
  and closes succeeds, and a fresh read session with the same passphrase on the bytes the
  underlying stream then holds, reading \<open>n\<close> bytes at a time until a read gives none,
  yields exactly the bytes written. \<open>n\<close> is a positive \<^verbatim>\<open>size_t\<close>.
\<close>

theorem cip_round_trip:
  assumes "0 < n" and "n < 2 ^ 64"
  shows "\<exists>w' r'.
           write_session (mem_env ks kdf rnd (Some secret) disk) w filename bufs = Some (w', r') \<and>
           read_session (mem_env ks kdf rnd2 (Some secret) (content r')) w2 filename2 n =
             Some (concat bufs)"
proof -
  define iv where "iv = map rnd [0..<16]"
  have len: "length iv = 16" by (simp add: iv_def)
  obtain w' where
    ws: "write_session (mem_env ks kdf rnd (Some secret) disk) w filename bufs =
           Some (w', \<lparr>content = iv @ ctr_xor (ks (kdf secret) iv) 0 (concat bufs), pos = 0\<rparr>)"
    using mem_write_session [of ks kdf rnd secret disk w filename bufs]
    unfolding iv_def by blast
  have "read_session (mem_env ks kdf rnd2 (Some secret)
            (iv @ ctr_xor (ks (kdf secret) iv) 0 (concat bufs))) w2 filename2 n =
          Some (concat bufs)"
    unfolding mem_read_session [OF len assms] by (simp add: ctr_xor_involution)
  with ws show ?thesis by simp
qed

theorem cip_round_trip_witness:
  "\<exists>w' r'.
     write_session (mem_env demo_ks demo_kdf demo_rnd (Some ''secret'') []) w0
       ''cip:reads.bam'' [[1, 2, 3, 4, 5]] = Some (w', r') \<and>
     read_session (mem_env demo_ks demo_kdf demo_rnd (Some ''secret'') (content r')) w0
       ''cip:reads.bam'' 2 = Some [1, 2, 3, 4, 5]"
  using cip_round_trip [of 2 demo_ks demo_kdf demo_rnd "''secret''" "[]" w0 "''cip:reads.bam''"
      "[[1, 2, 3, 4, 5]]" demo_rnd w0 "''cip:reads.bam''"]
  by simp


subsection \<open>What a write session writes\<close>

lemma written_append: "written (a @ b) = written a @ written b"
  by (induction a rule: written.induct) simp_all

lemma cip_write_all_Cons:
  assumes "cip_write_all env w fp (data # bufs) = Some (w', fp')"
  shows "\<exists>w1 fp1. cip_write env w fp data = Some (w1, fp1, Some (length data)) \<and>
                  cip_write_all env w1 fp1 bufs = Some (w', fp')"
proof (cases "cip_write env w fp data")
  case None
  with assms show ?thesis by simp
next
  case (Some t)
  obtain w1 fp1 res where t: "t = (w1, fp1, res)" by (cases t) auto
  show ?thesis
  proof (cases "res = Some (length data)")
    case True
    with assms Some t show ?thesis by simp
  next
    case False
    with assms Some t show ?thesis by simp
  qed
qed

lemma mem_length_preserving: "length_preserving (mem_env ks kdf rnd secret disk)"
  by (simp add: length_preserving_def mem_env_def)

lemma cipher_outputs_append:
  assumes "cipher_outputs env c a = Some (c1, o1)"
      and "cipher_outputs env c1 b = Some (c2, o2)"
  shows "cipher_outputs env c (a @ b) = Some (c2, o1 @ o2)"
  using assms
proof (induction a arbitrary: c o1)
  case Nil
  then show ?case by simp
next
  case (Cons ch a)
  from cipher_outputs_Cons [OF Cons.prems(1)] obtain c' out outs' where
    cu: "cipher_update_op env c ch = (c', kCCSuccess, out)"
    and co: "cipher_outputs env c' a = Some (c1, outs')" and o: "o1 = out # outs'"
    by blast
  from Cons.IH [OF co Cons.prems(2)]
  have "cipher_outputs env c' (a @ b) = Some (c2, outs' @ o2)" .
  with cu o show ?case by simp
qed

lemma accept_all_append:
  assumes "accept_all env r o1 = Some r1" and "accept_all env r1 o2 = Some r2"
  shows "accept_all env r (o1 @ o2) = Some r2"
  using assms
proof (induction o1 arbitrary: r)
  case Nil
  then show ?case by simp
next
  case (Cons out o1)
  from accept_all_Cons [OF Cons.prems(1)] obtain r' where
    hw: "hwrite_op env r out = (r', Inr (length out))"
    and aa: "accept_all env r' o1 = Some r1"
    by blast
  from Cons.IH [OF aa Cons.prems(2)] hw show ?case by simp
qed

lemma chunk_events_append:
  "length o1 = length a \<Longrightarrow>
     chunk_events (a @ b) (o1 @ o2) = chunk_events a o1 @ chunk_events b o2"
proof (induction a arbitrary: o1)
  case Nil
  then show ?case by simp
next
  case (Cons ch a)
  then obtain out o1' where "o1 = out # o1'" by (cases o1) auto
  with Cons show ?case by simp
qed

lemma written_chunk_events:
  "length outs = length chs \<Longrightarrow> written (chunk_events chs outs) = concat outs"
proof (induction chs arbitrary: outs)
  case Nil
  then show ?case by simp
next
  case (Cons ch chs)
  then obtain out outs' where "outs = out # outs'" by (cases outs) auto
  with Cons show ?case by simp
qed

lemma cipher_outputs_preserve:
  assumes "length_preserving env" and "cipher_outputs env c chs = Some (c', outs)"
  shows "length (concat outs) = length (concat chs)"
  using assms(2)
proof (induction chs arbitrary: c outs)
  case Nil
  then show ?case by simp
next
  case (Cons ch chs)
  from cipher_outputs_Cons [OF Cons.prems] obtain c1 out outs' where
    cu: "cipher_update_op env c ch = (c1, kCCSuccess, out)"
    and co: "cipher_outputs env c1 chs = Some (c', outs')" and o: "outs = out # outs'"
    by blast
  have "length out = length ch"
    using assms(1) cu unfolding length_preserving_def by blast
  with Cons.IH [OF co] o show ?case by simp
qed

lemma concat_chunks_all:
  "0 < n \<Longrightarrow> concat (concat (map (chunks n) bufs)) = concat bufs"
  by (induction bufs) (simp_all add: concat_chunks)

lemma cip_write_success:
  assumes "0 < bufsize fp"
      and "cip_write env w fp data = Some (w', fp', Some k)"
  shows "\<exists>c1 outs r1 buf.
           cipher_outputs env (ctx fp) (chunks (bufsize fp) data) = Some (c1, outs) \<and>
           accept_all env (rawfp fp) outs = Some r1 \<and>
           w' = w\<lparr>trace := trace w @ chunk_events (chunks (bufsize fp) data) outs\<rparr> \<and>
           fp' = fp\<lparr>ctx := c1, buffer := buf, rawfp := r1\<rparr> \<and> k = length data"
proof -
  let ?chs = "chunks (bufsize fp) data"
  have s: "spec_write env w fp ?chs 0 = (w', fp', Some k)"
    using assms(2) unfolding cip_write_def cip_write_loop_spec [OF assms(1)] by simp
  from spec_write_success [OF s] obtain outs where
    o: "cipher_outputs env (ctx fp) ?chs = Some (ctx fp', outs)"
       "accept_all env (rawfp fp) outs = Some (rawfp fp')"
    by blast
  from spec_write_prefix [OF o, of w "[]" 0] obtain buf where
    "spec_write env w fp ?chs 0 =
       (w\<lparr>trace := trace w @ chunk_events ?chs outs\<rparr>,
        fp\<lparr>ctx := ctx fp', buffer := buf, rawfp := rawfp fp'\<rparr>, Some (length (concat ?chs)))"
    by auto
  with s have "w' = w\<lparr>trace := trace w @ chunk_events ?chs outs\<rparr>"
    "fp' = fp\<lparr>ctx := ctx fp', buffer := buf, rawfp := rawfp fp'\<rparr>"
    "k = length (concat ?chs)"
    by simp_all
  moreover have "length (concat ?chs) = length data"
    using concat_chunks [OF assms(1), of data] by simp
  ultimately show ?thesis using o by metis
qed

lemma cip_write_all_chunks:
  assumes "0 < bufsize fp"
      and "cip_write_all env w fp bufs = Some (w', fp')"
  shows "\<exists>c1 outs r1 buf.
           cipher_outputs env (ctx fp) (concat (map (chunks (bufsize fp)) bufs)) =
             Some (c1, outs) \<and>
           accept_all env (rawfp fp) outs = Some r1 \<and>
           w' = w\<lparr>trace := trace w @
                  chunk_events (concat (map (chunks (bufsize fp)) bufs)) outs\<rparr> \<and>
           fp' = fp\<lparr>ctx := c1, buffer := buf, rawfp := r1\<rparr>"
  using assms
proof (induction bufs arbitrary: w fp)
  case Nil
  then have "w' = w" "fp' = fp" by simp_all
  then have "cipher_outputs env (ctx fp) (concat (map (chunks (bufsize fp)) [])) =
             Some (ctx fp, []) \<and>
           accept_all env (rawfp fp) [] = Some (rawfp fp) \<and>
           w' = w\<lparr>trace := trace w @
                  chunk_events (concat (map (chunks (bufsize fp)) [])) []\<rparr> \<and>
           fp' = fp\<lparr>ctx := ctx fp, buffer := buffer fp, rawfp := rawfp fp\<rparr>"
    by simp
  then show ?case by blast
next
  case (Cons data bufs)
  let ?n = "bufsize fp"
  from cip_write_all_Cons [OF Cons.prems(2)] obtain w1 fp1 where
    wr: "cip_write env w fp data = Some (w1, fp1, Some (length data))"
    and rest: "cip_write_all env w1 fp1 bufs = Some (w', fp')"
    by blast
  from cip_write_success [OF Cons.prems(1) wr] obtain c1 o1 r1 b1 where
    a: "cipher_outputs env (ctx fp) (chunks ?n data) = Some (c1, o1)"
       "accept_all env (rawfp fp) o1 = Some r1"
       "w1 = w\<lparr>trace := trace w @ chunk_events (chunks ?n data) o1\<rparr>"
       "fp1 = fp\<lparr>ctx := c1, buffer := b1, rawfp := r1\<rparr>"
    by blast
  have f1: "bufsize fp1 = ?n" "ctx fp1 = c1" "rawfp fp1 = r1" by (simp_all add: a(4))
  have "0 < bufsize fp1" using Cons.prems(1) f1(1) by simp
  from Cons.IH [OF this rest] obtain c2 o2 r2 b2 where
    b: "cipher_outputs env c1 (concat (map (chunks ?n) bufs)) = Some (c2, o2)"
       "accept_all env r1 o2 = Some r2"
       "w' = w1\<lparr>trace := trace w1 @ chunk_events (concat (map (chunks ?n) bufs)) o2\<rparr>"
       "fp' = fp1\<lparr>ctx := c2, buffer := b2, rawfp := r2\<rparr>"
    unfolding f1 by blast
  have l1: "length o1 = length (chunks ?n data)" by (rule cipher_outputs_length [OF a(1)])
  have c: "cipher_outputs env (ctx fp) (concat (map (chunks ?n) (data # bufs))) =
             Some (c2, o1 @ o2)"
    using cipher_outputs_append [OF a(1) b(1)] by simp
  have d: "accept_all env (rawfp fp) (o1 @ o2) = Some r2"
    by (rule accept_all_append [OF a(2) b(2)])
  have e: "w' = w\<lparr>trace := trace w @
             chunk_events (concat (map (chunks ?n) (data # bufs))) (o1 @ o2)\<rparr>"
    unfolding b(3) a(3) by (simp add: chunk_events_append [OF l1])
  have f: "fp' = fp\<lparr>ctx := c2, buffer := b2, rawfp := r2\<rparr>"
    unfolding b(4) a(4) by simp
  from c d e f show ?case by blast
qed

lemma cip_close_write_trace:
  assumes "length_preserving env" and "is_write fp"
  shows "trace (fst (cip_close env w fp)) = trace w @ [CipherFinal, CipherRelease, Hclose] \<and>
         rawfp (fst (snd (cip_close env w fp))) = fst (hclose_op env (rawfp fp))"
proof -
  obtain c1 st out where f: "cipher_final_op env (ctx fp) (bufsize fp) = (c1, st, out)"
    by (cases "cipher_final_op env (ctx fp) (bufsize fp)") auto
  have e: "st = kCCSuccess \<Longrightarrow> out = []"
    using assms(1) f unfolding length_preserving_def by blast
  obtain w1 fp1 err1 where s1: "cip_close_final env w fp 0 = (w1, fp1, err1)"
    by (cases "cip_close_final env w fp 0") auto
  have t1: "trace w1 = trace w @ [CipherFinal] \<and> rawfp fp1 = rawfp fp"
  proof (cases "st = kCCSuccess")
    case True
    with s1 f e assms(2) show ?thesis
      by (auto simp add: cip_close_final_def cipher_final_def log_def)
  next
    case False
    with s1 f assms(2) show ?thesis
      by (auto simp add: cip_close_final_def cipher_final_def log_def)
  qed
  have "trace (fst (cip_close env w fp)) = trace w1 @ [CipherRelease, Hclose] \<and>
        rawfp (fst (snd (cip_close env w fp))) = fst (hclose_op env (rawfp fp1))"
    by (simp add: cip_close_unfold [OF s1] Let_def split: option.splits)
  then show ?thesis using t1 by simp
qed

lemma hopen_cip_write_result:
  assumes acc: "hfile_oflags_op env mode AND O_ACCMODE = O_WRONLY"
      and ok: "hopen_cip env w filename mode = (w1, Some fp)"
      and iv: "iv = map (snd (rand_bytes_op env 16)) [0..<16]"
  shows "\<exists>key secret r0 r5 c0.
           getenv_op env ''HTS_CIP_KEY'' = Some key \<and>
           hopen_op env (strip_cip_scheme filename) mode = Inr r0 \<and>
           hwrite_op env r0 iv = (r5, Inr 16) \<and>
           pbkdf2_op env key salt 1024 16 = (kCCSuccess, secret) \<and>
           cipher_init_op env secret iv True = (kCCSuccess, c0) \<and>
           w1 = w\<lparr>trace := trace w @
              [Getenv ''HTS_CIP_KEY'', HfileInit mode,
               Hopen (strip_cip_scheme filename) mode, Malloc (8192 * 16), GenRandom 16,
               Hwrite iv, KeyDerivation key salt 1024 16, CipherInit secret iv True]\<rparr> \<and>
           fp = \<lparr>is_write = True, buffer = malloc_op env (8192 * 16), bufsize = 8192 * 16,
                  rawfp = r5, ctx = c0\<rparr>"
proof -
  have nz: "O_WRONLY \<noteq> O_RDONLY" by (simp add: oflag_defs)
  note defs = hopen_cip_def getenv_def hfile_init_def hopen_def malloc_def gen_random_def
    hwrite_def hopen_cip_cipher_def BLOCKSIZE_def acc nz log_def
  obtain key where k: "getenv_op env ''HTS_CIP_KEY'' = Some key"
    using ok by (cases "getenv_op env ''HTS_CIP_KEY''") (simp_all add: defs)
  have i: "hfile_init_op env mode = None"
    using ok k by (cases "hfile_init_op env mode") (simp_all add: defs)
  obtain r where o: "hopen_op env (strip_cip_scheme filename) mode = Inr r"
    using ok k i
    by (cases "hopen_op env (strip_cip_scheme filename) mode") (simp_all add: defs)
  obtain st f where g: "rand_bytes_op env 16 = (st, f)"
    by (cases "rand_bytes_op env 16") auto
  have st: "st = kCCSuccess"
    using ok k i o g by (cases "st = kCCSuccess") (simp_all add: defs)
  have ivf: "iv = map f [0..<16]" by (simp add: iv g)
  obtain r5 res where h: "hwrite_op env r (map f [0..<16]) = (r5, res)"
    by (cases "hwrite_op env r (map f [0..<16])") auto
  have res: "res = Inr 16"
  proof (cases res)
    case (Inl e)
    with ok k i o g st h show ?thesis
      by (simp add: defs del: upt_rec_numeral map_upt_Suc)
  next
    case (Inr n)
    with ok k i o g st h show ?thesis
      by (cases "n = 16") (simp_all add: defs del: upt_rec_numeral map_upt_Suc)
  qed
  obtain st1 secret where p: "pbkdf2_op env key salt 1024 16 = (st1, secret)"
    by (cases "pbkdf2_op env key salt 1024 16") auto
  have st1: "st1 = kCCSuccess"
    using ok k i o g st h res p
    by (cases "st1 = kCCSuccess") (simp_all add: defs del: upt_rec_numeral map_upt_Suc)
  obtain st2 c where ci: "cipher_init_op env secret (map f [0..<16]) True = (st2, c)"
    by (cases "cipher_init_op env secret (map f [0..<16]) True") auto
  have st2: "st2 = kCCSuccess"
    using ok k i o g st h res p st1 ci
    by (cases "st2 = kCCSuccess") (simp_all add: defs del: upt_rec_numeral map_upt_Suc)
  have "hopen_cip env w filename mode =
          (w\<lparr>trace := trace w @
              [Getenv ''HTS_CIP_KEY'', HfileInit mode,
               Hopen (strip_cip_scheme filename) mode, Malloc (8192 * 16), GenRandom 16,
               Hwrite iv, KeyDerivation key salt 1024 16, CipherInit secret iv True]\<rparr>,
           Some \<lparr>is_write = True, buffer = malloc_op env (8192 * 16), bufsize = 8192 * 16,
                 rawfp = r5, ctx = c\<rparr>)"
    using k i o g st h res p st1 ci st2 unfolding ivf
    by (simp add: defs del: upt_rec_numeral map_upt_Suc)
  with ok have "w1 = w\<lparr>trace := trace w @
              [Getenv ''HTS_CIP_KEY'', HfileInit mode,
               Hopen (strip_cip_scheme filename) mode, Malloc (8192 * 16), GenRandom 16,
               Hwrite iv, KeyDerivation key salt 1024 16, CipherInit secret iv True]\<rparr>"
    and "fp = \<lparr>is_write = True, buffer = malloc_op env (8192 * 16), bufsize = 8192 * 16,
                 rawfp = r5, ctx = c\<rparr>"
    by simp_all
  with k o h [folded ivf] res p st1 ci [folded ivf] st2 show ?thesis by blast
qed

lemma write_session_Some:
  assumes "write_session env w filename bufs = Some (w', r')"
  shows "\<exists>w1 fp1 w2 fp2.
           hopen_cip env w filename ''w'' = (w1, Some fp1) \<and>
           cip_write_all env w1 fp1 bufs = Some (w2, fp2) \<and>
           w' = fst (cip_close env w2 fp2) \<and>
           r' = rawfp (fst (snd (cip_close env w2 fp2)))"
proof -
  obtain w1 o1 where op: "hopen_cip env w filename ''w'' = (w1, o1)"
    by (cases "hopen_cip env w filename ''w''") auto
  show ?thesis
  proof (cases o1)
    case None
    with assms op show ?thesis by (simp add: write_session_def)
  next
    case (Some fp1)
    show ?thesis
    proof (cases "cip_write_all env w1 fp1 bufs")
      case None
      with assms op Some show ?thesis by (simp add: write_session_def)
    next
      case s2: (Some t)
      obtain w2 fp2 where t: "t = (w2, fp2)" by (cases t) auto
      obtain w3 fp3 rc where cl: "cip_close env w2 fp2 = (w3, fp3, rc)"
        by (cases "cip_close env w2 fp2") auto
      have "w' = w3 \<and> r' = rawfp fp3"
        using assms op Some s2 t cl
        by (cases "rc = 0") (simp_all add: write_session_def)
      then show ?thesis using op Some s2 t cl by simp
    qed
  qed
qed

text \<open>
  C3: in every write session that succeeds (mode \<^verbatim>\<open>w\<close> opening write-only, a cipher in
  counter mode), with \<open>iv\<close> the 16 random bytes generated and \<open>chs\<close> the chunks of the
  buffers written: the first bytes handed to the underlying stream are \<open>iv\<close> as
  generated, before the key is derived and the cipher started; what follows are the
  outputs \<open>outs\<close> that the cipher, started on the derived key and \<open>iv\<close> for encryption,
  gives for the chunks, each written whole and accepted whole; nothing else is written,
  and the stream returned is the one these writes and the close leave. So the bytes
  written are \<open>iv\<close> followed by the ciphertext, which has the length of the plaintext.
\<close>

theorem write_session_format:
  assumes wmode: "hfile_oflags_op env ''w'' AND O_ACCMODE = O_WRONLY"
      and lp: "length_preserving env"
      and ok: "write_session env w filename bufs = Some (w', r')"
      and iv: "iv = map (snd (rand_bytes_op env 16)) [0..<16]"
      and chs: "chs = concat (map (chunks (8192 * 16)) bufs)"
  shows "length iv = 16 \<and>
         (\<exists>key secret r0 c0 c1 outs rw.
            getenv_op env ''HTS_CIP_KEY'' = Some key \<and>
            hopen_op env (strip_cip_scheme filename) ''w'' = Inr r0 \<and>
            pbkdf2_op env key salt 1024 16 = (kCCSuccess, secret) \<and>
            cipher_init_op env secret iv True = (kCCSuccess, c0) \<and>
            cipher_outputs env c0 chs = Some (c1, outs) \<and>
            accept_all env r0 (iv # outs) = Some rw \<and>
            r' = fst (hclose_op env rw) \<and>
            trace w' = trace w @
              [Getenv ''HTS_CIP_KEY'', HfileInit ''w'',
               Hopen (strip_cip_scheme filename) ''w'', Malloc (8192 * 16), GenRandom 16,
               Hwrite iv, KeyDerivation key salt 1024 16, CipherInit secret iv True] @
              chunk_events chs outs @ [CipherFinal, CipherRelease, Hclose] \<and>
            written (trace w') = written (trace w) @ iv @ concat outs \<and>
            length (concat outs) = length (concat bufs))"
proof -
  from write_session_Some [OF ok] obtain w1 fp1 w2 fp2 where
    op: "hopen_cip env w filename ''w'' = (w1, Some fp1)"
    and wa: "cip_write_all env w1 fp1 bufs = Some (w2, fp2)"
    and cl: "w' = fst (cip_close env w2 fp2)"
            "r' = rawfp (fst (snd (cip_close env w2 fp2)))"
    by blast
  from hopen_cip_write_result [OF wmode op iv] obtain key secret r0 r5 c0 where
    k: "getenv_op env ''HTS_CIP_KEY'' = Some key"
    and o: "hopen_op env (strip_cip_scheme filename) ''w'' = Inr r0"
    and h: "hwrite_op env r0 iv = (r5, Inr 16)"
    and p: "pbkdf2_op env key salt 1024 16 = (kCCSuccess, secret)"
    and ci: "cipher_init_op env secret iv True = (kCCSuccess, c0)"
    and w1: "w1 = w\<lparr>trace := trace w @
              [Getenv ''HTS_CIP_KEY'', HfileInit ''w'',
               Hopen (strip_cip_scheme filename) ''w'', Malloc (8192 * 16), GenRandom 16,
               Hwrite iv, KeyDerivation key salt 1024 16, CipherInit secret iv True]\<rparr>"
    and fp1: "fp1 = \<lparr>is_write = True, buffer = malloc_op env (8192 * 16),
                     bufsize = 8192 * 16, rawfp = r5, ctx = c0\<rparr>"
    by blast
  have f1: "bufsize fp1 = 8192 * 16" "ctx fp1 = c0" "rawfp fp1 = r5" "is_write fp1"
    by (simp_all add: fp1)
  have pos: "0 < bufsize fp1" by (simp add: fp1)
  from cip_write_all_chunks [OF pos wa] obtain c1 outs r1 buf where
    co: "cipher_outputs env c0 chs = Some (c1, outs)"
    and aa: "accept_all env r5 outs = Some r1"
    and w2: "w2 = w1\<lparr>trace := trace w1 @ chunk_events chs outs\<rparr>"
    and fp2: "fp2 = fp1\<lparr>ctx := c1, buffer := buf, rawfp := r1\<rparr>"
    unfolding f1 chs by blast
  have f2: "is_write fp2" "rawfp fp2 = r1" by (simp_all add: fp2 fp1)
  from cip_close_write_trace [OF lp f2(1), of w2]
  have t3: "trace w' = trace w2 @ [CipherFinal, CipherRelease, Hclose]"
    and r': "r' = fst (hclose_op env r1)"
    unfolding cl f2(2) by simp_all
  have len: "length iv = 16" by (simp add: iv)
  have a1: "accept_all env r0 (iv # outs) = Some r1"
    using h aa len by simp
  have tr: "trace w' = trace w @
              [Getenv ''HTS_CIP_KEY'', HfileInit ''w'',
               Hopen (strip_cip_scheme filename) ''w'', Malloc (8192 * 16), GenRandom 16,
               Hwrite iv, KeyDerivation key salt 1024 16, CipherInit secret iv True] @
              chunk_events chs outs @ [CipherFinal, CipherRelease, Hclose]"
    unfolding t3 w2 w1 by simp
  have lo: "length outs = length chs" by (rule cipher_outputs_length [OF co])
  have wr: "written (trace w') = written (trace w) @ iv @ concat outs"
    unfolding tr by (simp add: written_append written_chunk_events [OF lo])
  have "length (concat outs) = length (concat chs)"
    by (rule cipher_outputs_preserve [OF lp co])
  also have "\<dots> = length (concat bufs)"
    unfolding chs using concat_chunks_all [of "8192 * 16" bufs] by simp
  finally have ll: "length (concat outs) = length (concat bufs)" .
  from len k o p ci co a1 r' tr wr ll show ?thesis by blast
qed

theorem write_session_format_witness:
  "\<exists>w' r' c1 outs.
     write_session (mem_env demo_ks demo_kdf demo_rnd (Some ''secret'') []) w0
       ''cip:reads.bam'' [[1, 2, 3], [4, 5]] = Some (w', r') \<and>
     cipher_outputs (mem_env demo_ks demo_kdf demo_rnd (Some ''secret'') [])
       \<lparr>ctr_key = demo_kdf ''secret'', ctr_iv = map demo_rnd [0..<16], ctr_pos = 0\<rparr>
       [[1, 2, 3], [4, 5]] = Some (c1, outs) \<and>
     written (trace w') = map demo_rnd [0..<16] @ concat outs \<and>
     length (concat outs) = 5 \<and>
     content r' = map demo_rnd [0..<16] @
       ctr_xor (demo_ks (demo_kdf ''secret'') (map demo_rnd [0..<16])) 0 [1, 2, 3, 4, 5]"
proof -
  let ?env = "mem_env demo_ks demo_kdf demo_rnd (Some ''secret'') []"
  let ?iv = "map demo_rnd [0..<16]"
  obtain w' r' where
    ok: "write_session ?env w0 ''cip:reads.bam'' [[1, 2, 3], [4, 5]] = Some (w', r')"
    and r': "r' = \<lparr>content = ?iv @
               ctr_xor (demo_ks (demo_kdf ''secret'') ?iv) 0 (concat [[1, 2, 3], [4, 5]]),
             pos = 0\<rparr>"
    using mem_write_session [of demo_ks demo_kdf demo_rnd "''secret''" "[]" w0
        "''cip:reads.bam''" "[[1, 2, 3], [4, 5]]"]
    by blast
  have wmode: "hfile_oflags_op ?env ''w'' AND O_ACCMODE = O_WRONLY"
    using mem_oflags_w by (simp add: mem_env_def)
  have iv: "?iv = map (snd (rand_bytes_op ?env 16)) [0..<16]"
    by (simp add: mem_env_def)
  have chs: "[[1, 2, 3], [4, 5 :: byte]] = concat (map (chunks (8192 * 16)) [[1, 2, 3], [4, 5]])"
    by (simp add: chunks_Cons)
  from write_session_format [OF wmode mem_length_preserving ok iv chs]
  obtain key secret r0 c0 c1 outs rw where
    k: "getenv_op ?env ''HTS_CIP_KEY'' = Some key"
    and p: "pbkdf2_op ?env key salt 1024 16 = (kCCSuccess, secret)"
    and ci: "cipher_init_op ?env secret ?iv True = (kCCSuccess, c0)"
    and co: "cipher_outputs ?env c0 [[1, 2, 3], [4, 5]] = Some (c1, outs)"
    and wr: "written (trace w') = written (trace w0) @ ?iv @ concat outs"
    and ll: "length (concat outs) = length (concat [[1, 2, 3], [4, 5 :: byte]])"
    by blast
  have "key = ''secret''" using k by (simp add: mem_env_def)
  then have "secret = demo_kdf ''secret''" using p by (simp add: mem_env_def)
  then have c0: "c0 = \<lparr>ctr_key = demo_kdf ''secret'', ctr_iv = ?iv, ctr_pos = 0\<rparr>"
    using ci by (simp add: mem_env_def del: upt_rec_numeral map_upt_Suc)
  have a: "written (trace w') = ?iv @ concat outs" using wr by (simp add: w0_def)
  have b: "length (concat outs) = 5" using ll by simp
  have c: "content r' = ?iv @
       ctr_xor (demo_ks (demo_kdf ''secret'') ?iv) 0 [1, 2, 3, 4, 5]"
    unfolding r' by simp
  from ok co [unfolded c0] a b c show ?thesis by blast
qed

end
